theory Spec2Isabelle
  imports Main "HOL-Library.Word"
begin

unbundle bit_operations_syntax

section \<open>Machine types\<close>

type_synonym u8 = "8 word"
type_synonym u16 = "16 word"
type_synonym u32 = "32 word"

section \<open>Checksum engine: \<open>crc32\<close>\<close>

text \<open>
  One round of the inner \<open>for\<close> loop of \<open>crc32\<close>: test bit 31, shift left by one
  (the shift drops the top bit of the 32-bit value) and fold in the polynomial.
\<close>

definition crc32_round :: "u32 \<Rightarrow> u32" where
  "crc32_round crc =
     (if crc AND push_bit 31 1 \<noteq> 0 then push_bit 1 crc XOR 0x04C11DB7 else push_bit 1 crc)"

text \<open>The \<open>for (bit = 0; bit < 8; bit++)\<close> loop, counted by the rounds that remain.\<close>

fun crc32_bits :: "nat \<Rightarrow> u32 \<Rightarrow> u32" where
  "crc32_bits 0 crc = crc"
| "crc32_bits (Suc n) crc = crc32_bits n (crc32_round crc)"

text \<open>
  \<open>crc32 data len crc\<close>: the list is the byte range \<open>data[0..len)\<close>; the \<open>while (len--)\<close>
  loop consumes it front to back.
\<close>

fun crc32 :: "u8 list \<Rightarrow> u32 \<Rightarrow> u32" where
  "crc32 [] crc = crc"
| "crc32 (b # bs) crc = crc32 bs (crc32_bits 8 (crc XOR push_bit 24 (ucast b)))"

section \<open>Record parser\<close>

text \<open>
  A line is the C string handed to the parser: the characters in front of the terminating
  NUL. Reading the string where the list has ended reads that NUL.
\<close>

definition peek :: "string \<Rightarrow> char" where
  "peek str = (case str of [] \<Rightarrow> CHR 0x00 | c # _ \<Rightarrow> c)"

text \<open>
  \<open>hex2nibble c value\<close> returns the success flag and the updated \<open>*value\<close>. The
  character is compared as an 8-bit code; the shift \<open>*value <<= 4\<close> is taken in eight
  bits. The letter branch folds the case with \<open>c |= 32\<close> and accepts the codes from
  \<open>'a'\<close> up to \<open>'z'\<close>, as the source has it.
\<close>

definition hex2nibble :: "char \<Rightarrow> u8 \<Rightarrow> bool \<times> u8" where
  "hex2nibble c v =
     (let c8 = (of_char c :: u8) in
      if of_char CHR ''0'' \<le> c8 \<and> c8 \<le> of_char CHR ''9''
      then (True, push_bit 4 v OR (c8 - of_char CHR ''0''))
      else
        (let c8 = c8 OR 32 in
         if of_char CHR ''a'' \<le> c8 \<and> c8 \<le> of_char CHR ''z''
         then (True, push_bit 4 v OR ((c8 - of_char CHR ''a'') + 10))
         else (False, v)))"

text \<open>
  \<open>parseHex str\<close>: \<open>*value = 0\<close>, then the two nibbles; the second character is read
  only when the first was converted (\<open>&&\<close> short-circuits).
\<close>

definition parseHex :: "string \<Rightarrow> bool \<times> u8" where
  "parseHex str =
     (case hex2nibble (peek str) 0 of
        (True, v) \<Rightarrow> hex2nibble (peek (tl str)) v
      | (False, v) \<Rightarrow> (False, v))"

text \<open>
  \<open>memcpy dst d src s n\<close> copies \<open>src[s .. s + n)\<close> over \<open>dst[d .. d + n)\<close>; the two
  arrays are distinct objects at every call site. Arrays are maps from index to byte, so a
  copy that runs past the declared size of the destination shows as a write at an index
  beyond it.
\<close>

definition memcpy :: "(nat \<Rightarrow> u8) \<Rightarrow> nat \<Rightarrow> (nat \<Rightarrow> u8) \<Rightarrow> nat \<Rightarrow> nat \<Rightarrow> (nat \<Rightarrow> u8)" where
  "memcpy dst d src s n = (\<lambda>i. if d \<le> i \<and> i < d + n then src (s + (i - d)) else dst i)"

text \<open>Intel HEX record, \<open>tRecord\<close>; the array \<open>data[256]\<close> is a map from index to byte.\<close>

record tRecord =
  count :: u8
  addr :: u16
  type :: u8
  data :: "nat \<Rightarrow> u8"

text \<open>The scan \<open>while (*line && (*line != ':')) line++\<close>.\<close>

fun skip_to_marker :: "string \<Rightarrow> string" where
  "skip_to_marker [] = []"
| "skip_to_marker (c # cs) =
     (if c = CHR 0x00 \<or> c = CHR '':'' then c # cs else skip_to_marker cs)"

text \<open>
  The decoding loop \<open>while (parseHex(line, &value) && (offset < sizeof(data)))\<close> with
  \<open>sizeof(data) = 261\<close>. The local array \<open>data\<close> is a map from index to byte; it starts
  with whatever the stack holds. The result is the array, the number of decoded bytes and
  the 8-bit running sum.
\<close>

function decode_loop ::
  "string \<Rightarrow> (nat \<Rightarrow> u8) \<Rightarrow> nat \<Rightarrow> u8 \<Rightarrow> (nat \<Rightarrow> u8) \<times> nat \<times> u8" where
  "decode_loop line buf offset checksum =
     (if fst (parseHex line) \<and> offset < 261
      then decode_loop (drop 2 line) (buf(offset := snd (parseHex line))) (offset + 1)
             (checksum + snd (parseHex line))
      else (buf, offset, checksum))"
  by pat_completeness auto
termination
  by (relation "measure (\<lambda>(line, buf, offset, checksum). 261 - offset)") auto

text \<open>
  \<open>processRecord line record\<close>. \<open>stack\<close> is the initial content of the uninitialised
  local array \<open>data\<close>. The result is the success flag and the record as the call leaves
  it; \<open>memcpy(record->data, &data[4], data[0])\<close> overwrites the first \<open>data[0]\<close> bytes of
  the record's payload array.
\<close>

definition processRecord :: "(nat \<Rightarrow> u8) \<Rightarrow> string \<Rightarrow> tRecord \<Rightarrow> bool \<times> tRecord" where
  "processRecord stack line record =
     (let l = skip_to_marker line;
          (buf, offset, checksum) =
            (if peek l = CHR '':'' then decode_loop (tl l) stack 0 0 else (stack, 0, 0))
      in if offset > 0 \<and> checksum = 0
         then (True, record\<lparr>
                 count := buf 0,
                 addr := ucast (buf 2) OR push_bit 8 (ucast (buf 1)),
                 type := buf 3,
                 data := memcpy (data record) 0 buf 4 (unat (buf 0))\<rparr>)
         else (False, record))"

text \<open>
  The bytes that loop decodes, as a list: the loop of \<open>decode_loop\<close> with the same
  condition, collecting the values of \<open>parseHex\<close> instead of storing and summing them.
  \<open>decoded line\<close> is the list for a whole line as \<open>processRecord\<close> reads it: the pairs
  behind the first marker, up to the first pair \<open>parseHex\<close> refuses and at most
  \<open>sizeof(data) = 261\<close> of them; no byte when the scan finds no marker.
\<close>

function decoded_from :: "string \<Rightarrow> nat \<Rightarrow> u8 list" where
  "decoded_from line offset =
     (if fst (parseHex line) \<and> offset < 261
      then snd (parseHex line) # decoded_from (drop 2 line) (offset + 1)
      else [])"
  by pat_completeness auto
termination
  by (relation "measure (\<lambda>(line, offset). 261 - offset)") auto

definition decoded :: "string \<Rightarrow> u8 list" where
  "decoded line =
     (let l = skip_to_marker line
      in if peek l = CHR '':'' then decoded_from (tl l) 0 else [])"

section \<open>Flash stager and handoff\<close>

text \<open>
  Modelled from the spec: the header type \<open>tFlashHeader\<close> and the constants
  \<open>FLASH_MAGIC1\<close>, \<open>FLASH_MAGIC2\<close> are declared in \<open>flashloader.h\<close>, and \<open>XIP_BASE\<close> in
  the SDK; \<open>app.c\<close> only uses them. The header is two magic words, a length word
  and a CRC word, immediately followed by the image bytes, so its size is 16 bytes; the
  words are stored little-endian, as the target stores them. The three constants are
  parameters of the model.
\<close>

record platform =
  FLASH_MAGIC1 :: u32
  FLASH_MAGIC2 :: u32
  XIP_BASE :: u32

record tFlashHeader =
  hdr_magic1 :: u32
  hdr_magic2 :: u32
  hdr_length :: u32
  hdr_crc32 :: u32

definition sizeof_tFlashHeader :: u32 where
  "sizeof_tFlashHeader = 16"

definition le32 :: "u32 \<Rightarrow> u8 list" where
  "le32 w = [ucast w, ucast (drop_bit 8 w), ucast (drop_bit 16 w), ucast (drop_bit 24 w)]"

definition header_bytes :: "tFlashHeader \<Rightarrow> u8 list" where
  "header_bytes h = le32 (hdr_magic1 h) @ le32 (hdr_magic2 h) @ le32 (hdr_length h) @ le32 (hdr_crc32 h)"

definition FLASH_IMAGE_OFFSET :: u32 where
  "FLASH_IMAGE_OFFSET = 128 * 1024"

text \<open>What the program does to the world outside its variables, in the order it does it.\<close>

datatype event =
    UartPuts string
  | SaveAndDisableInterrupts
  | FlashRangeErase u32 u32
  | FlashRangeProgram u32 "u8 list"
  | RestoreInterrupts
  | ScratchWrite nat u32
  | WatchdogReboot u32 u32 u32

definition crlf :: string where
  "crlf = [CHR 0x0D, CHR 0x0A]"

text \<open>
  \<open>flashImage header length\<close>: \<open>img\<close> is the array \<open>header->data\<close>. The function fills
  the header in place, erases, programs \<open>totalLength\<close> bytes starting at the header with one
  call, sets the watchdog scratch registers and waits for the reset: it never returns, and
  the model gives the events it has caused.
\<close>

definition flashImage :: "platform \<Rightarrow> (nat \<Rightarrow> u8) \<Rightarrow> u32 \<Rightarrow> event list" where
  "flashImage pf img len =
     (let totalLength = sizeof_tFlashHeader + len;
          eraseLength = (totalLength + 4095) AND 0xfffff000;
          header = \<lparr>hdr_magic1 = FLASH_MAGIC1 pf,
                    hdr_magic2 = FLASH_MAGIC2 pf,
                    hdr_length = len,
                    hdr_crc32 = crc32 (map img [0..<unat len]) 0xffffffff\<rparr>
      in [UartPuts (''Storing new image in flash and then rebooting'' @ crlf),
          SaveAndDisableInterrupts,
          FlashRangeErase FLASH_IMAGE_OFFSET eraseLength,
          FlashRangeProgram FLASH_IMAGE_OFFSET
            (take (unat totalLength) (header_bytes header @ map img [0..<unat len])),
          RestoreInterrupts,
          UartPuts (''Rebooting into flashloader in 1 second'' @ crlf),
          ScratchWrite 0 (FLASH_MAGIC1 pf),
          ScratchWrite 1 (XIP_BASE pf + FLASH_IMAGE_OFFSET),
          WatchdogReboot 0 0 1000])"

section \<open>Image assembler: \<open>readIntelHex\<close>\<close>

definition TYPE_DATA :: u8 where "TYPE_DATA = 0x00"
definition TYPE_EOF :: u8 where "TYPE_EOF = 0x01"
definition TYPE_EXTSEG :: u8 where "TYPE_EXTSEG = 0x02"
definition TYPE_STARTSEG :: u8 where "TYPE_STARTSEG = 0x03"
definition TYPE_EXTLIN :: u8 where "TYPE_EXTLIN = 0x04"
definition TYPE_STARTLIN :: u8 where "TYPE_STARTLIN = 0x05"

text \<open>
  The variables that live across iterations of the loop: the local \<open>offset\<close>, the local
  \<open>count\<close> of accepted records (here \<open>accepted\<close>), and the memory that starts at
  \<open>flashbuf.header.data\<close>, as a map from index to byte. The union \<open>flashbuf\<close> reserves 65536
  bytes for the image, so the indices below 65536 are the staging buffer and an index from
  65536 on is memory behind the object \<open>flashbuf\<close>.
\<close>

record loader =
  offset :: u32
  accepted :: u32
  flashbuf :: "nat \<Rightarrow> u8"

datatype outcome = Continue loader | Rebooting

text \<open>
  \<open>getLine\<close>. The UART is the list of the characters still to come; \<open>uart_getc\<close> takes
  the first of them. Every character read is stored through \<open>ptr\<close>, a terminator as NUL,
  so the store goes to the index that equals the number of characters stored before it;
  \<open>buf\<close> is what has been stored so far. The buffer is the local \<open>char line[1024]\<close> of
  \<open>readIntelHex\<close>, and \<open>getLine\<close> compares \<open>ptr\<close> with no bound: a store to an index from
  1024 on is a write behind the array, into the stack frame of \<open>readIntelHex\<close>, and the
  language gives no meaning to what follows. The model ends there with \<open>Overrun\<close>. When
  the characters are used up before a terminator has come, \<open>uart_getc\<close> waits: \<open>Blocked\<close>.
  Otherwise the result is the line and the characters that remain on the UART.
\<close>

datatype got_line = Line string "char list" | Blocked | Overrun

fun getLine_loop :: "char list \<Rightarrow> string \<Rightarrow> got_line" where
  "getLine_loop [] buf = Blocked"
| "getLine_loop (c # cs) buf =
     (if 1024 \<le> length buf then Overrun
      else if c \<noteq> CHR 0x0A \<and> c \<noteq> CHR 0x0D then getLine_loop cs (buf @ [c])
      else Line buf cs)"

definition getLine :: "char list \<Rightarrow> got_line" where
  "getLine uart = getLine_loop uart []"

text \<open>
  The body of \<open>while (true)\<close> in \<open>readIntelHex\<close> behind the call of \<open>getLine\<close>, for
  the line that \<open>getLine\<close> has stored. \<open>stack\<close> and \<open>rec0\<close> are what the uninitialised
  locals \<open>data\<close> (of \<open>processRecord\<close>) and \<open>rec\<close> hold when the iteration starts. The
  switch is kept in the order of the source.
\<close>

definition readIntelHex_step ::
  "platform \<Rightarrow> (nat \<Rightarrow> u8) \<Rightarrow> tRecord \<Rightarrow> loader \<Rightarrow> string \<Rightarrow> event list \<times> outcome" where
  "readIntelHex_step pf stack rec0 st line =
     (case processRecord stack line rec0 of
        (False, rec) \<Rightarrow> ([], Continue st)
      | (True, rec) \<Rightarrow>
          if type rec = TYPE_DATA then
            (let mem = memcpy (flashbuf st) (unat (offset st)) (data rec) 0 (unat (count rec));
                 off = (offset st + ucast (count rec)) mod 65536
             in (if off mod 1024 = 0 then [UartPuts (''Received block'' @ crlf)] else [],
                 Continue (st\<lparr>offset := off, flashbuf := mem, accepted := accepted st + 1\<rparr>)))
          else if type rec = TYPE_EOF then
            (flashImage pf (flashbuf st) (offset st), Rebooting)
          else if type rec = TYPE_EXTSEG \<or> type rec = TYPE_STARTSEG \<or> type rec = TYPE_STARTLIN then
            ([], Continue (st\<lparr>accepted := accepted st + 1\<rparr>))
          else if type rec = TYPE_EXTLIN then
            ([], Continue (st\<lparr>offset := 0, accepted := accepted st + 1\<rparr>))
          else
            ([], Continue (st\<lparr>accepted := accepted st + 1\<rparr>)))"

text \<open>
  One whole iteration of \<open>while (true)\<close>, from the characters on the UART: \<open>getLine\<close>,
  then the body on the line it stored. The result is the events and the outcome of the
  body together with the characters left on the UART, or \<open>Waiting\<close> when \<open>getLine\<close> is
  blocked, or \<open>LineOverrun\<close> when \<open>getLine\<close> has written behind \<open>line\<close>.
\<close>

datatype iteration = Stepped "event list" outcome "char list" | Waiting | LineOverrun

definition readIntelHex_iteration ::
  "platform \<Rightarrow> (nat \<Rightarrow> u8) \<Rightarrow> tRecord \<Rightarrow> loader \<Rightarrow> char list \<Rightarrow> iteration" where
  "readIntelHex_iteration pf stack rec0 st uart =
     (case getLine uart of
        Line line rest \<Rightarrow>
          (case readIntelHex_step pf stack rec0 st line of (out, r) \<Rightarrow> Stepped out r rest)
      | Blocked \<Rightarrow> Waiting
      | Overrun \<Rightarrow> LineOverrun)"

text \<open>
  The loop over the lines that \<open>getLine\<close> has stored, one after the other. \<open>garbage k\<close>
  is what the uninitialised locals hold in iteration \<open>k\<close>. The loop ends only in
  \<open>flashImage\<close>; when the lines given are used up it is blocked in \<open>getLine\<close>, and the
  model gives the state it is blocked in.
\<close>

fun readIntelHex ::
  "platform \<Rightarrow> (nat \<Rightarrow> (nat \<Rightarrow> u8) \<times> tRecord) \<Rightarrow> nat \<Rightarrow> loader \<Rightarrow> string list
     \<Rightarrow> event list \<times> outcome" where
  "readIntelHex pf garbage k st [] = ([], Continue st)"
| "readIntelHex pf garbage k st (line # lines) =
     (case readIntelHex_step pf (fst (garbage k)) (snd (garbage k)) st line of
        (out, Rebooting) \<Rightarrow> (out, Rebooting)
      | (out, Continue st') \<Rightarrow>
          (case readIntelHex pf garbage (Suc k) st' lines of (out', r) \<Rightarrow> (out @ out', r)))"

section \<open>The transfer encoding, after the specification\<close>

text \<open>
  Nibble decoding as the specification words it: the digits \<open>0\<close> to \<open>9\<close> and the letters
  \<open>a\<close> to \<open>f\<close> in either case.
\<close>

definition hex_table :: "(char \<times> u8) list" where
  "hex_table =
     [(CHR ''0'', 0), (CHR ''1'', 1), (CHR ''2'', 2), (CHR ''3'', 3), (CHR ''4'', 4),
      (CHR ''5'', 5), (CHR ''6'', 6), (CHR ''7'', 7), (CHR ''8'', 8), (CHR ''9'', 9),
      (CHR ''a'', 10), (CHR ''b'', 11), (CHR ''c'', 12), (CHR ''d'', 13), (CHR ''e'', 14),
      (CHR ''f'', 15),
      (CHR ''A'', 10), (CHR ''B'', 11), (CHR ''C'', 12), (CHR ''D'', 13), (CHR ''E'', 14),
      (CHR ''F'', 15)]"

definition nibble_of :: "char \<Rightarrow> u8 option" where
  "nibble_of c = map_of hex_table c"

text \<open>\<open>encodes cs bs\<close>: the text \<open>cs\<close> is the bytes \<open>bs\<close> in two hex characters each.\<close>

fun encodes :: "string \<Rightarrow> u8 list \<Rightarrow> bool" where
  "encodes [] [] = True"
| "encodes (a # b # cs) (x # xs) =
     (case nibble_of a of
        None \<Rightarrow> False
      | Some h \<Rightarrow>
          (case nibble_of b of
             None \<Rightarrow> False
           | Some l \<Rightarrow> x = (push_bit 4 h OR l) \<and> encodes cs xs))"
| "encodes cs bs = False"

text \<open>
  The bytes of a record in the order of the line format: count, address high and low,
  type, payload, and the checksum byte that makes the sum of all bytes zero modulo 256.
\<close>

definition record_fields :: "u8 \<Rightarrow> u16 \<Rightarrow> u8 \<Rightarrow> u8 list \<Rightarrow> u8 list" where
  "record_fields cnt a ty payload = [cnt, ucast (drop_bit 8 a), ucast a, ty] @ payload"

definition record_bytes :: "u8 \<Rightarrow> u16 \<Rightarrow> u8 \<Rightarrow> u8 list \<Rightarrow> u8 list" where
  "record_bytes cnt a ty payload =
     record_fields cnt a ty payload @ [- sum_list (record_fields cnt a ty payload)]"

text \<open>An encoder for the line format, with upper-case hex digits.\<close>

definition hex_digit :: "u8 \<Rightarrow> char" where
  "hex_digit n = ''0123456789ABCDEF'' ! unat n"

definition hex_pair :: "u8 \<Rightarrow> string" where
  "hex_pair b = [hex_digit (drop_bit 4 b), hex_digit (b AND 15)]"

definition encode_bytes :: "u8 list \<Rightarrow> string" where
  "encode_bytes bs = concat (map hex_pair bs)"

definition encode_record :: "u8 \<Rightarrow> u16 \<Rightarrow> u8 \<Rightarrow> u8 list \<Rightarrow> string" where
  "encode_record cnt a ty payload = CHR '':'' # encode_bytes (record_bytes cnt a ty payload)"

text \<open>
  The array \<open>data\<close> of \<open>processRecord\<close> after the bytes \<open>bs\<close> were decoded into it from
  index 0: the decoded bytes, and behind them what the stack held.
\<close>

definition decoded_buf :: "(nat \<Rightarrow> u8) \<Rightarrow> u8 list \<Rightarrow> nat \<Rightarrow> u8" where
  "decoded_buf stack bs = (\<lambda>i. if i < length bs then bs ! i else stack i)"

section \<open>Views of the event trace\<close>

text \<open>The erase and program calls of a trace, in order.\<close>

fun is_flash_op :: "event \<Rightarrow> bool" where
  "is_flash_op (FlashRangeErase off n) = True"
| "is_flash_op (FlashRangeProgram off bs) = True"
| "is_flash_op e = False"

definition flash_ops :: "event list \<Rightarrow> event list" where
  "flash_ops evs = filter is_flash_op evs"

text \<open>
  The flash bytes a trace programs, each with its flash offset, in the order they are
  handed to the medium: the program calls in the order of the trace, and the bytes of one
  call in the order of the buffer the call is given, which is the order of their addresses.
\<close>

fun programmed :: "event list \<Rightarrow> (u32 \<times> u8) list" where
  "programmed [] = []"
| "programmed (FlashRangeProgram off bs # evs) =
     zip (map (\<lambda>i. off + of_nat i) [0..<length bs]) bs @ programmed evs"
| "programmed (e # evs) = programmed evs"

text \<open>
  The two magic words are the first eight bytes of the header, at the flash offsets
  \<open>FLASH_IMAGE_OFFSET\<close> to \<open>FLASH_IMAGE_OFFSET + 7\<close>. The ordering the specification asks
  for: the last eight bytes programmed are the ones at these offsets.
\<close>

definition magic_offsets :: "u32 list" where
  "magic_offsets = map (\<lambda>i. FLASH_IMAGE_OFFSET + of_nat i) [0..<8]"

definition magic_programmed_last :: "event list \<Rightarrow> bool" where
  "magic_programmed_last evs =
     (let s = programmed evs in map fst (drop (length s - 8) s) = magic_offsets)"

text \<open>Reading a little-endian word back from a byte list.\<close>

definition word_at :: "u8 list \<Rightarrow> nat \<Rightarrow> u32" where
  "word_at bs i =
     ucast (bs ! i) OR push_bit 8 (ucast (bs ! (i + 1))) OR push_bit 16 (ucast (bs ! (i + 2)))
       OR push_bit 24 (ucast (bs ! (i + 3)))"

text \<open>
  Concrete values for the examples: a record, a stack and a loader state of zeros, and a
  platform with some magic constants.
\<close>

definition blank_record :: tRecord where
  "blank_record = \<lparr>count = 0, addr = 0, type = 0, data = (\<lambda>i. 0)\<rparr>"

definition blank_stack :: "nat \<Rightarrow> u8" where
  "blank_stack = (\<lambda>i. 0)"

definition blank_loader :: loader where
  "blank_loader = \<lparr>offset = 0, accepted = 0, flashbuf = (\<lambda>i. 0)\<rparr>"

definition example_platform :: platform where
  "example_platform = \<lparr>FLASH_MAGIC1 = 0x8ECD5EFB, FLASH_MAGIC2 = 0xC5AE52A9, XIP_BASE = 0x10000000\<rparr>"

section \<open>The checksum, after the specification\<close>

text \<open>
  The reference definition, written after the specification's wording and on natural
  numbers with the arithmetic modulo \<open>2 ^ 32\<close> spelled out: the byte is XORed into the
  high-order eight bits, then eight rounds of shift-left follow, each XORing the polynomial
  when the top bit was set before the shift. No reflection, no final XOR.
\<close>

definition crc32_spec_round :: "nat \<Rightarrow> nat" where
  "crc32_spec_round c =
     (if 2 ^ 31 \<le> c then ((2 * c) mod 2 ^ 32) XOR 0x04C11DB7 else (2 * c) mod 2 ^ 32)"

definition crc32_spec_byte :: "nat \<Rightarrow> nat \<Rightarrow> nat" where
  "crc32_spec_byte c b = (crc32_spec_round ^^ 8) (c XOR (b * 2 ^ 24))"

definition crc32_spec :: "nat list \<Rightarrow> nat \<Rightarrow> nat" where
  "crc32_spec bs seed = foldl crc32_spec_byte seed bs"

section \<open>Properties of the checksum engine\<close>

lemma bit31_iff_unat: "bit crc 31 = (2 ^ 31 \<le> unat crc)" for crc :: u32
proof -
  have lt: "unat crc < 2 ^ 32"
    using unsigned_less [of crc, where 'a = nat] by simp
  have "bit crc 31 = bit (unat crc) 31"
    by (simp add: bit_unsigned_iff)
  also have "\<dots> = odd (unat crc div 2 ^ 31)"
    by (simp add: bit_iff_odd)
  also have "\<dots> = (2 ^ 31 \<le> unat crc)"
  proof (cases "2 ^ 31 \<le> unat crc")
    case True
    then have "unat crc div 2 ^ 31 = 1" using lt by simp
    then show ?thesis using True by simp
  next
    case False
    then have "unat crc div 2 ^ 31 = 0" by simp
    then show ?thesis using False by simp
  qed
  finally show ?thesis .
qed

lemma top_bit_test: "(crc AND push_bit 31 1 \<noteq> 0) = (2 ^ 31 \<le> unat crc)" for crc :: u32
  using bit_iff_and_push_bit_not_eq_0 [of crc 31] bit31_iff_unat [of crc] by blast

lemma unat_shift_left_1: "unat (push_bit 1 crc) = (2 * unat crc) mod 2 ^ 32" for crc :: u32
  by (simp add: unat_word_ariths mult.commute)

lemma unat_byte_to_top: "unat (push_bit 24 (ucast b :: u32)) = unat b * 2 ^ 24" for b :: u8
proof -
  have lt: "unat b < 2 ^ 8"
    using unsigned_less [of b, where 'a = nat] by simp
  then have "unat b < 2 ^ 32" by simp
  then have "unat (ucast b :: u32) = unat b"
    by (simp add: unsigned_ucast_eq take_bit_nat_eq_self)
  then show ?thesis using lt by (simp add: unat_word_ariths push_bit_eq_mult)
qed

lemma unat_crc32_round: "unat (crc32_round crc) = crc32_spec_round (unat crc)"
  unfolding crc32_round_def crc32_spec_round_def top_bit_test
  by (simp only: unsigned_xor_eq unat_shift_left_1 if_distrib [of unat]) simp

lemma unat_crc32_bits: "unat (crc32_bits n crc) = (crc32_spec_round ^^ n) (unat crc)"
  by (induction n arbitrary: crc) (simp_all add: unat_crc32_round funpow_swap1)

lemma unat_crc32_step:
  "unat (crc32_bits 8 (crc XOR push_bit 24 (ucast b))) = crc32_spec_byte (unat crc) (unat b)"
  for b :: u8
proof -
  have "unat (crc XOR push_bit 24 (ucast b)) = unat crc XOR unat b * 2 ^ 24"
    using unat_byte_to_top [of b] by (simp only: unsigned_xor_eq)
  then show ?thesis
    by (simp only: crc32_spec_byte_def unat_crc32_bits)
qed

lemma unat_crc32: "unat (crc32 bs crc) = crc32_spec (map unat bs) (unat crc)"
  unfolding crc32_spec_def
  by (induction bs arbitrary: crc) (simp_all only: crc32.simps list.map foldl.simps unat_crc32_step)

lemma crc32_check_vector:
  "crc32 (map of_char ''123456789'') 0xFFFFFFFF = 0x0376E6E7"
  by code_simp

text \<open>
  Claim C6. \<open>crc32\<close> is a function of its byte sequence and seed alone, and it computes
  the reference bit-by-bit definition: read as natural numbers, its result is the
  specification's \<open>crc32_spec\<close> (byte into the top eight bits, eight shift rounds with
  the polynomial \<open>0x04C11DB7\<close>, arithmetic modulo \<open>2 ^ 32\<close>, no reflection, no final
  XOR). It reproduces the catalogued check value \<open>0x0376E6E7\<close> of CRC-32/MPEG-2 for the
  ASCII string \<open>123456789\<close> with seed \<open>0xFFFFFFFF\<close>, and with an empty input it returns
  the seed unchanged.
\<close>

theorem crc32_refines_spec:
  "unat (crc32 bs seed) = crc32_spec (map unat bs) (unat seed)
   \<and> crc32 (map of_char ''123456789'') 0xFFFFFFFF = 0x0376E6E7
   \<and> crc32 [] seed = seed"
  using unat_crc32 [of bs seed] crc32_check_vector by simp

section \<open>Properties of the record parser\<close>

declare decode_loop.simps [simp del]

declare decoded_from.simps [simp del]

lemma nibble_of_cases:
  "nibble_of c = Some h \<Longrightarrow> (c, h) \<in> set hex_table"
  unfolding nibble_of_def by (rule map_of_SomeD)

lemma hex2nibble_nibble_of:
  "nibble_of c = Some h \<Longrightarrow> hex2nibble c v = (True, push_bit 4 v OR h)"
  by (drule nibble_of_cases) (auto simp: hex_table_def hex2nibble_def)

lemma parseHex_pair:
  assumes "nibble_of a = Some h" and "nibble_of b = Some l"
  shows "parseHex (a # b # cs) = (True, push_bit 4 h OR l)"
  using hex2nibble_nibble_of [OF assms(1), of 0] hex2nibble_nibble_of [OF assms(2), of h]
  by (simp add: parseHex_def peek_def)

lemma decode_loop_stop:
  "\<not> fst (parseHex rest) \<Longrightarrow> decode_loop rest buf off ck = (buf, off, ck)"
  by (subst decode_loop.simps) simp

lemma decode_loop_pair:
  assumes "nibble_of a = Some h" and "nibble_of b = Some l" and "off < 261"
  shows "decode_loop (a # b # cs) buf off ck =
    decode_loop cs (buf(off := push_bit 4 h OR l)) (Suc off) (ck + (push_bit 4 h OR l))"
  using assms(3) by (subst decode_loop.simps) (simp add: parseHex_pair [OF assms(1,2)])

lemma decode_loop_encodes:
  "encodes cs bs \<Longrightarrow> off + length bs \<le> 261 \<Longrightarrow> \<not> fst (parseHex rest) \<Longrightarrow>
   decode_loop (cs @ rest) buf off ck =
     (\<lambda>i. if off \<le> i \<and> i < off + length bs then bs ! (i - off) else buf i,
      off + length bs, ck + sum_list bs)"
proof (induction cs bs arbitrary: buf off ck rule: encodes.induct)
  case 1
  then show ?case by (auto simp: decode_loop_stop fun_eq_iff)
next
  case (2 a b cs x xs)
  from "2.prems"(1) obtain h l where
    h: "nibble_of a = Some h" and l: "nibble_of b = Some l"
    and x: "x = push_bit 4 h OR l" and rest: "encodes cs xs"
    by (auto split: option.splits)
  from "2.prems"(2) have off: "off < 261" and len: "Suc off + length xs \<le> 261"
    by simp_all
  have "decode_loop ((a # b # cs) @ rest) buf off ck =
        decode_loop (cs @ rest) (buf(off := x)) (Suc off) (ck + x)"
    using decode_loop_pair [OF h l off] x by simp
  also have "\<dots> = (\<lambda>i. if Suc off \<le> i \<and> i < Suc off + length xs then xs ! (i - Suc off)
                         else (buf(off := x)) i,
                    Suc off + length xs, ck + x + sum_list xs)"
    using "2.IH" [OF h l rest len "2.prems"(3)] by simp
  also have "\<dots> = (\<lambda>i. if off \<le> i \<and> i < off + length (x # xs) then (x # xs) ! (i - off)
                         else buf i,
                    off + length (x # xs), ck + sum_list (x # xs))"
    by (auto simp: fun_eq_iff nth_Cons' add.assoc)
  finally show ?case .
qed simp_all

lemma skip_to_marker_prefix:
  "CHR '':'' \<notin> set pre \<Longrightarrow> CHR 0x00 \<notin> set pre \<Longrightarrow>
   skip_to_marker (pre @ CHR '':'' # cs) = CHR '':'' # cs"
  by (induction pre) auto

lemma skip_to_marker_none:
  "CHR '':'' \<notin> set line \<Longrightarrow> peek (skip_to_marker line) \<noteq> CHR '':''"
  by (induction line) (auto simp: peek_def)

lemma processRecord_no_marker:
  "CHR '':'' \<notin> set line \<Longrightarrow> processRecord stack line rcd = (False, rcd)"
  using skip_to_marker_none [of line] by (simp add: processRecord_def)

lemma processRecord_shape:
  assumes "CHR '':'' \<notin> set pre" and "CHR 0x00 \<notin> set pre"
    and "encodes cs bs" and "length bs \<le> 261" and "\<not> fst (parseHex rest)"
  shows "processRecord stack (pre @ CHR '':'' # cs @ rest) rcd =
     (if bs \<noteq> [] \<and> sum_list bs = 0
      then (True, rcd\<lparr>
              count := decoded_buf stack bs 0,
              addr := ucast (decoded_buf stack bs 2) OR push_bit 8 (ucast (decoded_buf stack bs 1)),
              type := decoded_buf stack bs 3,
              data := memcpy (data rcd) 0 (decoded_buf stack bs) 4 (unat (decoded_buf stack bs 0))\<rparr>)
      else (False, rcd))"
proof -
  have "decode_loop (cs @ rest) stack 0 0 = (decoded_buf stack bs, length bs, sum_list bs)"
    using decode_loop_encodes [OF assms(3) _ assms(5), of 0 stack 0] assms(4)
    by (simp add: decoded_buf_def cong: if_cong)
  then show ?thesis
    by (simp add: processRecord_def skip_to_marker_prefix [OF assms(1,2)] peek_def)
qed

lemma addr_of_bytes:
  "ucast (ucast a :: u8) OR push_bit 8 (ucast (ucast (drop_bit 8 a) :: u8)) = a" for a :: u16
  by (rule bit_word_eqI) (auto simp: bit_simps)

lemma low_nibble_mask: "b AND 15 = take_bit 4 b" for b :: u8
  by (simp add: take_bit_eq_mask mask_eq_exp_minus_1)

lemma nibbles_of_byte: "push_bit 4 (drop_bit 4 b) OR (b AND 15) = b" for b :: u8
  unfolding low_nibble_mask by (rule bit_word_eqI) (auto simp: bit_simps)

lemma nibble_enum:
  fixes n :: u8
  assumes "n < 16"
  shows "n \<in> {0, 1, 2, 3, 4, 5, 6, 7, 8, 9, 10, 11, 12, 13, 14, 15}"
proof -
  from assms have "unat n < 16" by (simp add: word_less_nat_alt)
  then have "unat n = 0 \<or> unat n = 1 \<or> unat n = 2 \<or> unat n = 3 \<or> unat n = 4 \<or> unat n = 5
      \<or> unat n = 6 \<or> unat n = 7 \<or> unat n = 8 \<or> unat n = 9 \<or> unat n = 10 \<or> unat n = 11
      \<or> unat n = 12 \<or> unat n = 13 \<or> unat n = 14 \<or> unat n = 15"
    by arith
  then show ?thesis by (simp add: word_unat_eq_iff)
qed

lemma hex_digit_nibble:
  fixes n :: u8
  assumes "n < 16"
  shows "nibble_of (hex_digit n) = Some n"
proof -
  have "\<forall>k \<in> {0, 1, 2, 3, 4, 5, 6, 7, 8, 9, 10, 11, 12, 13, 14, 15 :: u8}.
          nibble_of (hex_digit k) = Some k"
    by (simp add: nibble_of_def hex_table_def hex_digit_def)
  then show ?thesis using nibble_enum [OF assms] by (rule bspec)
qed

lemma high_nibble_less: "drop_bit 4 b < 16" for b :: u8
proof -
  have "unat (drop_bit 4 b) = unat b div 16" by (simp add: drop_bit_eq_div unat_div)
  moreover have "unat b < 256" using unsigned_less [of b, where 'a = nat] by simp
  ultimately show ?thesis by (simp add: word_less_nat_alt)
qed

lemma low_nibble_less: "b AND 15 < 16" for b :: u8
  using word_and_le1 [of b 15] by (simp add: word_le_nat_alt word_less_nat_alt)

lemma encodes_encode_bytes: "encodes (encode_bytes bs) bs"
  by (induction bs)
    (simp_all add: encode_bytes_def hex_pair_def hex_digit_nibble high_nibble_less
      low_nibble_less nibbles_of_byte)

lemma decoded_buf_record:
  assumes "bs = [cnt, hi, lo, ty] @ payload @ [ck]"
  shows "decoded_buf stack bs 0 = cnt" and "decoded_buf stack bs (Suc 0) = hi"
    and "decoded_buf stack bs 2 = lo" and "decoded_buf stack bs 3 = ty"
    and "i < length payload \<Longrightarrow> decoded_buf stack bs (4 + i) = payload ! i"
  using assms by (simp_all add: decoded_buf_def nth_append)

lemma map_memcpy_payload:
  assumes "bs = [cnt, hi, lo, ty] @ payload @ [ck]" and "length payload = n"
  shows "map (memcpy dst 0 (decoded_buf stack bs) 4 n) [0..<n] = payload"
  using assms decoded_buf_record(5) [OF assms(1), of _ stack]
  by (auto simp: list_eq_iff_nth_eq memcpy_def)

lemma processRecord_wellformed:
  assumes "CHR '':'' \<notin> set pre" and "CHR 0x00 \<notin> set pre"
    and "encodes cs bs" and "\<not> fst (parseHex rest)"
    and bs: "bs = [cnt, hi, lo, ty] @ payload @ [ck]"
    and len: "length payload = unat cnt" and sum: "sum_list bs = 0"
  shows "processRecord stack (pre @ CHR '':'' # cs @ rest) rcd =
          (True, rcd\<lparr>count := cnt, addr := ucast lo OR push_bit 8 (ucast hi), type := ty,
                   data := memcpy (data rcd) 0 (decoded_buf stack bs) 4 (unat cnt)\<rparr>)"
proof -
  have "unat cnt < 256" using unsigned_less [of cnt, where 'a = nat] by simp
  then have "length bs \<le> 261" using bs len by simp
  moreover have "bs \<noteq> []" using bs by simp
  ultimately show ?thesis
    using processRecord_shape [OF assms(1,2,3) _ assms(4), of stack rcd] sum
    by (simp add: decoded_buf_record [OF bs])
qed

lemma decode_loop_decoded:
  "decode_loop line buf off ck =
     (\<lambda>i. if off \<le> i \<and> i < off + length (decoded_from line off)
           then decoded_from line off ! (i - off) else buf i,
      off + length (decoded_from line off), ck + sum_list (decoded_from line off))"
proof (induction line buf off ck rule: decode_loop.induct)
  case (1 line buf offset checksum)
  show ?case
  proof (cases "fst (parseHex line) \<and> offset < 261")
    case True
    let ?v = "snd (parseHex line)"
    have ds: "decoded_from line offset = ?v # decoded_from (drop 2 line) (offset + 1)"
      using True by (subst decoded_from.simps) simp
    have "decode_loop line buf offset checksum =
          decode_loop (drop 2 line) (buf(offset := ?v)) (offset + 1) (checksum + ?v)"
      using True by (subst decode_loop.simps) simp
    also note "1.IH" [OF True]
    finally show ?thesis
      unfolding ds by (auto simp: fun_eq_iff nth_Cons' add.assoc)
  next
    case False
    then have "decoded_from line offset = []"
      by (subst decoded_from.simps) auto
    moreover have "decode_loop line buf offset checksum = (buf, offset, checksum)"
      using False by (subst decode_loop.simps) auto
    ultimately show ?thesis
      by (auto simp: fun_eq_iff)
  qed
qed

lemma processRecord_decoded:
  "processRecord stack line rcd =
     (if decoded line \<noteq> [] \<and> sum_list (decoded line) = 0
      then (True, rcd\<lparr>
              count := decoded_buf stack (decoded line) 0,
              addr := ucast (decoded_buf stack (decoded line) 2)
                        OR push_bit 8 (ucast (decoded_buf stack (decoded line) 1)),
              type := decoded_buf stack (decoded line) 3,
              data := memcpy (data rcd) 0 (decoded_buf stack (decoded line)) 4
                        (unat (decoded_buf stack (decoded line) 0))\<rparr>)
      else (False, rcd))"
proof (cases "peek (skip_to_marker line) = CHR '':''")
  case True
  have "decode_loop (tl (skip_to_marker line)) stack 0 0 =
          (decoded_buf stack (decoded line), length (decoded line), sum_list (decoded line))"
    using True by (simp add: decode_loop_decoded decoded_def decoded_buf_def cong: if_cong)
  with True show ?thesis
    by (simp add: processRecord_def)
next
  case False
  then show ?thesis
    by (simp add: processRecord_def decoded_def)
qed

lemma decoded_from_encodes:
  "encodes cs bs \<Longrightarrow> off \<le> 261 \<Longrightarrow> 261 \<le> off + length bs \<or> \<not> fst (parseHex rest) \<Longrightarrow>
   decoded_from (cs @ rest) off = take (261 - off) bs"
proof (induction cs bs arbitrary: off rule: encodes.induct)
  case 1
  then show ?case
    by (subst decoded_from.simps) auto
next
  case (2 a b cs x xs)
  from "2.prems"(1) obtain h l where
    h: "nibble_of a = Some h" and l: "nibble_of b = Some l"
    and x: "x = push_bit 4 h OR l" and rest: "encodes cs xs"
    by (auto split: option.splits)
  show ?case
  proof (cases "off < 261")
    case True
    then have le: "Suc off \<le> 261"
      by simp
    from "2.prems"(3) have stop: "261 \<le> Suc off + length xs \<or> \<not> fst (parseHex rest)"
      by simp
    have "decoded_from ((a # b # cs) @ rest) off = x # decoded_from (cs @ rest) (Suc off)"
      using True x by (subst decoded_from.simps) (simp add: parseHex_pair [OF h l])
    also have "decoded_from (cs @ rest) (Suc off) = take (261 - Suc off) xs"
      by (rule "2.IH" [OF h l rest le stop])
    also have "x # take (261 - Suc off) xs = take (261 - off) (x # xs)"
      using True by (simp add: take_Cons')
    finally show ?thesis .
  next
    case False
    then show ?thesis
      using "2.prems"(2) by (subst decoded_from.simps) auto
  qed
qed simp_all

lemma decoded_shape:
  assumes "CHR '':'' \<notin> set pre" and "CHR 0x00 \<notin> set pre" and "encodes cs bs"
    and "261 \<le> length bs \<or> \<not> fst (parseHex rest)"
  shows "decoded (pre @ CHR '':'' # cs @ rest) = take 261 bs"
  using decoded_from_encodes [OF assms(3), of 0 rest] assms(4)
  by (simp add: decoded_def skip_to_marker_prefix [OF assms(1,2)] peek_def)

lemma decoded_no_marker:
  "CHR '':'' \<notin> set line \<Longrightarrow> decoded line = []"
  using skip_to_marker_none [of line] by (simp add: decoded_def)

text \<open>
  Claim C4, as amended. For every line, \<open>processRecord\<close> accepts exactly when the loop
  has decoded at least one byte and the decoded bytes sum to zero modulo 256; the decoded
  bytes are the values of the pairs behind the first marker, up to the first pair the
  decoder refuses and at most 261 of them. So a line whose decoded bytes have a nonzero sum
  is rejected, and a line without marker has no decoded byte and is rejected. Where the
  text in front of the marker holds neither a marker nor a NUL and the marker is followed
  by the hex pairs of a byte sequence \<open>bs\<close>, written with \<open>0\<close> to \<open>9\<close>, \<open>a\<close> to \<open>f\<close>,
  \<open>A\<close> to \<open>F\<close>, the decoded bytes are the first 261 bytes of \<open>bs\<close>, provided 261 pairs or
  more are there or the remainder of the line starts with a pair the decoder refuses (the
  end of the line is such a remainder). When \<open>bs\<close> is a well-formed record (count, address
  high and low, type, \<open>count\<close> payload bytes, checksum byte) with zero sum, followed by
  such a remainder, the line is accepted and the record returned has exactly the count, the
  big-endian address, the type and the payload of the line, the checksum byte not being
  part of the payload. A pair the decoder refuses does not by itself reject a line: it only
  ends the decoding.
\<close>

theorem processRecord_line:
  "(fst (processRecord stack line rcd) \<longleftrightarrow> decoded line \<noteq> [] \<and> sum_list (decoded line) = 0)
   \<and> (CHR '':'' \<notin> set line \<longrightarrow> decoded line = [])
   \<and> (CHR '':'' \<notin> set pre \<and> CHR 0x00 \<notin> set pre \<and> encodes cs bs
        \<and> (261 \<le> length bs \<or> \<not> fst (parseHex rest)) \<longrightarrow>
      decoded (pre @ CHR '':'' # cs @ rest) = take 261 bs)
   \<and> (CHR '':'' \<notin> set pre \<and> CHR 0x00 \<notin> set pre
        \<and> encodes cs ([cnt, hi, lo, ty] @ payload @ [ck]) \<and> length payload = unat cnt
        \<and> sum_list ([cnt, hi, lo, ty] @ payload @ [ck]) = 0 \<and> \<not> fst (parseHex rest) \<longrightarrow>
      fst (processRecord stack (pre @ CHR '':'' # cs @ rest) rcd)
      \<and> (let r = snd (processRecord stack (pre @ CHR '':'' # cs @ rest) rcd)
         in count r = cnt \<and> addr r = push_bit 8 (ucast hi) OR ucast lo \<and> type r = ty
            \<and> map (data r) [0..<unat cnt] = payload))"
proof (intro conjI impI)
  show "fst (processRecord stack line rcd) \<longleftrightarrow> decoded line \<noteq> [] \<and> sum_list (decoded line) = 0"
    by (simp add: processRecord_decoded)
next
  assume "CHR '':'' \<notin> set line"
  then show "decoded line = []"
    by (rule decoded_no_marker)
next
  assume "CHR '':'' \<notin> set pre \<and> CHR 0x00 \<notin> set pre \<and> encodes cs bs
        \<and> (261 \<le> length bs \<or> \<not> fst (parseHex rest))"
  then have "CHR '':'' \<notin> set pre" and "CHR 0x00 \<notin> set pre" and "encodes cs bs"
    and "261 \<le> length bs \<or> \<not> fst (parseHex rest)"
    by blast+
  then show "decoded (pre @ CHR '':'' # cs @ rest) = take 261 bs"
    by (rule decoded_shape)
next
  assume a: "CHR '':'' \<notin> set pre \<and> CHR 0x00 \<notin> set pre
        \<and> encodes cs ([cnt, hi, lo, ty] @ payload @ [ck]) \<and> length payload = unat cnt
        \<and> sum_list ([cnt, hi, lo, ty] @ payload @ [ck]) = 0 \<and> \<not> fst (parseHex rest)"
  then have pre: "CHR '':'' \<notin> set pre" "CHR 0x00 \<notin> set pre"
    and enc: "encodes cs ([cnt, hi, lo, ty] @ payload @ [ck])"
    and len: "length payload = unat cnt"
    and sum: "sum_list ([cnt, hi, lo, ty] @ payload @ [ck]) = 0"
    and stop: "\<not> fst (parseHex rest)"
    by blast+
  note wf = processRecord_wellformed [OF pre enc stop refl len sum, of stack rcd]
  show "fst (processRecord stack (pre @ CHR '':'' # cs @ rest) rcd)"
    by (simp add: wf)
  show "let r = snd (processRecord stack (pre @ CHR '':'' # cs @ rest) rcd)
        in count r = cnt \<and> addr r = push_bit 8 (ucast hi) OR ucast lo \<and> type r = ty
           \<and> map (data r) [0..<unat cnt] = payload"
    using map_memcpy_payload [OF refl len, of "data rcd" stack cnt hi lo ty ck]
    by (simp add: wf or.commute)
qed

lemmas parser_defs = processRecord_def decode_loop.simps parseHex_def hex2nibble_def peek_def memcpy_def

text \<open>
  The scenario line \<open>:0300300002337A1E\<close> with the text \<open>ok\<close> in front of the marker and a
  semicolon, which the decoder refuses, behind the checksum byte; and the same pairs
  without marker.
\<close>

theorem processRecord_line_witness:
  "fst (processRecord blank_stack ''ok :0300300002337A1E;'' blank_record)
   \<and> decoded ''ok :0300300002337A1E;'' = [0x03, 0x00, 0x30, 0x00, 0x02, 0x33, 0x7A, 0x1E]
   \<and> count (snd (processRecord blank_stack ''ok :0300300002337A1E;'' blank_record)) = 3
   \<and> addr (snd (processRecord blank_stack ''ok :0300300002337A1E;'' blank_record)) = 0x0030
   \<and> type (snd (processRecord blank_stack ''ok :0300300002337A1E;'' blank_record)) = 0
   \<and> map (data (snd (processRecord blank_stack ''ok :0300300002337A1E;'' blank_record))) [0..<3]
        = [0x02, 0x33, 0x7A]
   \<and> CHR '':'' \<notin> set ''0300300002337A1E''
   \<and> decoded ''0300300002337A1E'' = []
   \<and> \<not> fst (processRecord blank_stack ''0300300002337A1E'' blank_record)"
proof -
  let ?bs = "[0x03, 0x00, 0x30, 0x00, 0x02, 0x33, 0x7A, 0x1E] :: u8 list"
  have line: "''ok '' @ CHR '':'' # ''0300300002337A1E'' @ '';'' = ''ok :0300300002337A1E;''"
    by simp
  have pre: "CHR '':'' \<notin> set ''ok ''" "CHR 0x00 \<notin> set ''ok ''"
    by simp_all
  have enc: "encodes ''0300300002337A1E'' ?bs"
    by (simp add: nibble_of_def hex_table_def)
  have enc': "encodes ''0300300002337A1E'' ([0x03, 0x00, 0x30, 0x00] @ [0x02, 0x33, 0x7A] @ [0x1E])"
    using enc by simp
  have stop: "\<not> fst (parseHex '';'')"
    by (simp add: parseHex_def hex2nibble_def peek_def)
  have len: "length [0x02, 0x33, 0x7A :: u8] = unat (3 :: u8)"
    by simp
  have sum: "sum_list ([0x03, 0x00, 0x30, 0x00] @ [0x02, 0x33, 0x7A] @ [0x1E :: u8]) = 0"
    by simp
  have none: "CHR '':'' \<notin> set ''0300300002337A1E''"
    by simp
  note inst = processRecord_line [where stack = blank_stack and rcd = blank_record
      and line = "''0300300002337A1E''" and pre = "''ok ''" and cs = "''0300300002337A1E''"
      and bs = ?bs and rest = "'';''" and cnt = 3 and hi = 0 and lo = "0x30" and ty = 0
      and payload = "[0x02, 0x33, 0x7A]" and ck = "0x1E"]
  from inst pre enc stop have d: "decoded (''ok '' @ CHR '':'' # ''0300300002337A1E'' @ '';'') = take 261 ?bs"
    by blast
  from inst pre enc' stop len sum
  have r: "fst (processRecord blank_stack (''ok '' @ CHR '':'' # ''0300300002337A1E'' @ '';'') blank_record)
    \<and> (let r = snd (processRecord blank_stack (''ok '' @ CHR '':'' # ''0300300002337A1E'' @ '';'') blank_record)
       in count r = 3 \<and> addr r = push_bit 8 (ucast (0 :: u8)) OR ucast (0x30 :: u8) \<and> type r = 0
          \<and> map (data r) [0..<unat (3 :: u8)] = [0x02, 0x33, 0x7A])"
    by blast
  from inst none have n: "decoded ''0300300002337A1E'' = []"
    and "fst (processRecord blank_stack ''0300300002337A1E'' blank_record)
           \<longleftrightarrow> decoded ''0300300002337A1E'' \<noteq> [] \<and> sum_list (decoded ''0300300002337A1E'') = 0"
    by blast+
  then have rej: "\<not> fst (processRecord blank_stack ''0300300002337A1E'' blank_record)"
    by simp
  from d r n rej none show ?thesis
    unfolding line by (simp add: Let_def)
qed

text \<open>
  The claim as first stated fails: \<open>!\<close> is no hex character, the line below has \<open>!!\<close>
  where the checksum byte of the record belongs, and it is accepted whatever the stack and
  the record hold, because the five pairs in front of it sum to zero.
\<close>

theorem processRecord_invalid_hex_counterexample:
  "nibble_of CHR ''!'' = None
   \<and> (\<forall>stack rcd. fst (processRecord stack '':01000000FF!!'' rcd))"
  by (simp add: nibble_of_def hex_table_def parser_defs)

lemma record_bytes_shape:
  "record_bytes cnt a ty payload =
     [cnt, ucast (drop_bit 8 a), ucast a, ty] @ payload @ [- sum_list (record_fields cnt a ty payload)]"
  by (simp add: record_bytes_def record_fields_def)

lemma processRecord_encode_record:
  assumes "length payload = unat cnt"
  shows "processRecord stack (encode_record cnt a ty payload) rcd =
     (True, rcd\<lparr>count := cnt, addr := a, type := ty,
              data := memcpy (data rcd) 0 (decoded_buf stack (record_bytes cnt a ty payload)) 4
                        (unat cnt)\<rparr>)"
proof -
  let ?bs = "record_bytes cnt a ty payload"
  have sum: "sum_list ?bs = 0"
    by (simp add: record_bytes_def)
  have stop: "\<not> fst (parseHex [])"
    by (simp add: parseHex_def peek_def hex2nibble_def)
  have "processRecord stack ([] @ CHR '':'' # encode_bytes ?bs @ []) rcd =
          (True, rcd\<lparr>count := cnt,
                   addr := ucast (ucast a :: u8) OR push_bit 8 (ucast (ucast (drop_bit 8 a) :: u8)),
                   type := ty,
                   data := memcpy (data rcd) 0 (decoded_buf stack ?bs) 4 (unat cnt)\<rparr>)"
    by (rule processRecord_wellformed
        [OF _ _ encodes_encode_bytes stop record_bytes_shape assms sum]) simp_all
  then show ?thesis
    by (simp add: encode_record_def addr_of_bytes)
qed

text \<open>
  Claim C9. Encoding a tuple of count, address, type and payload (the payload as long as
  the count says) into the line format with its checksum byte, and parsing the line, gives
  back the tuple: the parser accepts, and count, address, type and the first \<open>count\<close> bytes
  of the record's payload array are the original ones.
\<close>

theorem encode_parse_roundtrip:
  assumes "length payload = unat cnt"
  shows "fst (processRecord stack (encode_record cnt a ty payload) rcd)
       \<and> count (snd (processRecord stack (encode_record cnt a ty payload) rcd)) = cnt
       \<and> addr (snd (processRecord stack (encode_record cnt a ty payload) rcd)) = a
       \<and> type (snd (processRecord stack (encode_record cnt a ty payload) rcd)) = ty
       \<and> map (data (snd (processRecord stack (encode_record cnt a ty payload) rcd)))
             [0..<unat cnt] = payload"
  using map_memcpy_payload [OF record_bytes_shape assms, where dst = "data rcd" and stack = stack]
  by (simp add: processRecord_encode_record [OF assms])

text \<open>
  The tuple of the scenario line: count 3, address \<open>0x0030\<close>, type 0, payload
  \<open>02 33 7A\<close>; its encoding is the line \<open>:0300300002337A1E\<close>.
\<close>

theorem encode_parse_roundtrip_witness:
  "length [0x02, 0x33, 0x7A :: u8] = unat (3 :: u8)
   \<and> encode_record 3 0x0030 0 [0x02, 0x33, 0x7A] = '':0300300002337A1E''
   \<and> fst (processRecord blank_stack '':0300300002337A1E'' blank_record)
   \<and> count (snd (processRecord blank_stack '':0300300002337A1E'' blank_record)) = 3
   \<and> addr (snd (processRecord blank_stack '':0300300002337A1E'' blank_record)) = 0x0030
   \<and> type (snd (processRecord blank_stack '':0300300002337A1E'' blank_record)) = 0
   \<and> map (data (snd (processRecord blank_stack '':0300300002337A1E'' blank_record))) [0..<3]
        = [0x02, 0x33, 0x7A]"
  using encode_parse_roundtrip [where payload = "[0x02, 0x33, 0x7A]" and cnt = 3
      and stack = blank_stack and a = "0x0030" and ty = 0 and rcd = blank_record]
  by (simp add: encode_record_def record_bytes_def record_fields_def encode_bytes_def
      hex_pair_def hex_digit_def)

lemma or_32_nat: "(n::nat) OR 32 = (if even (n div 32) then n + 32 else n)"
proof -
  have "n OR 32 = set_bit 5 n"
    by (simp add: set_bit_eq_or)
  also have "\<dots> = n + of_bool (\<not> bit n 5) * 2 ^ 5"
    by (rule set_bit_eq)
  also have "\<dots> = (if even (n div 32) then n + 32 else n)"
    by (simp add: bit_iff_odd)
  finally show ?thesis .
qed

lemma letter_ranges:
  fixes n :: nat
  assumes "n < 256"
  shows "(97 \<le> (if even (n div 32) then n + 32 else n) \<and> (if even (n div 32) then n + 32 else n) \<le> 122)
     \<longleftrightarrow> (65 \<le> n \<and> n \<le> 90) \<or> (97 \<le> n \<and> n \<le> 122)"
proof -
  consider "n < 32" | "32 \<le> n" "n < 64" | "64 \<le> n" "n < 96" | "96 \<le> n" "n < 128" | "128 \<le> n" "n < 160" | "160 \<le> n" "n < 192" | "192 \<le> n" "n < 224" | "224 \<le> n" "n < 256"
    using assms by linarith
  then show ?thesis
  proof cases
    case 1
    then have "n div 32 = 0" by simp
    with 1 show ?thesis by simp
  next
    case 2
    then have "n div 32 = 1" by simp
    with 2 show ?thesis by simp
  next
    case 3
    then have "n div 32 = 2" by simp
    with 3 show ?thesis by simp
  next
    case 4
    then have "n div 32 = 3" by simp
    with 4 show ?thesis by simp
  next
    case 5
    then have "n div 32 = 4" by simp
    with 5 show ?thesis by simp
  next
    case 6
    then have "n div 32 = 5" by simp
    with 6 show ?thesis by simp
  next
    case 7
    then have "n div 32 = 6" by simp
    with 7 show ?thesis by simp
  next
    case 8
    then have "n div 32 = 7" by simp
    with 8 show ?thesis by simp
  qed
qed

lemma unat_of_char: "unat (of_char c :: u8) = of_char c"
  using unat_of_nat [of "of_char c", where 'a = 8] by (simp add: of_nat_of_char)

lemma hex2nibble_success:
  "fst (hex2nibble c v) \<longleftrightarrow>
     (48 \<le> (of_char c :: nat) \<and> (of_char c :: nat) \<le> 57)
   \<or> (65 \<le> (of_char c :: nat) \<and> (of_char c :: nat) \<le> 90)
   \<or> (97 \<le> (of_char c :: nat) \<and> (of_char c :: nat) \<le> 122)"
proof -
  define n where "n = (of_char c :: nat)"
  define w where "w = (of_char c :: u8)"
  have n: "n < 256"
    unfolding n_def by simp
  have c8: "unat w = n"
    unfolding n_def w_def by (rule unat_of_char)
  have or8: "unat (w OR 32) = n OR 32"
    using c8 by (simp add: unsigned_or_eq)
  have digit: "(48 \<le> w \<and> w \<le> 57) \<longleftrightarrow> (48 \<le> n \<and> n \<le> 57)"
    using c8 by (simp add: word_le_nat_alt)
  have letter: "(97 \<le> (w OR 32) \<and> (w OR 32) \<le> 122) \<longleftrightarrow> (97 \<le> (n OR 32) \<and> (n OR 32) \<le> 122)"
    using or8 by (simp add: word_le_nat_alt)
  have "fst (hex2nibble c v) \<longleftrightarrow> (48 \<le> w \<and> w \<le> 57) \<or> (97 \<le> (w OR 32) \<and> (w OR 32) \<le> 122)"
    unfolding hex2nibble_def Let_def w_def [symmetric] by simp
  also have "\<dots> \<longleftrightarrow> (48 \<le> n \<and> n \<le> 57) \<or> (97 \<le> (n OR 32) \<and> (n OR 32) \<le> 122)"
    unfolding digit letter ..
  also have "\<dots> \<longleftrightarrow> (48 \<le> n \<and> n \<le> 57) \<or> (65 \<le> n \<and> n \<le> 90) \<or> (97 \<le> n \<and> n \<le> 122)"
    unfolding or_32_nat letter_ranges [OF n] ..
  finally show ?thesis
    unfolding n_def .
qed

text \<open>
  Claim C3. \<open>hex2nibble\<close> succeeds exactly on the digits \<open>0\<close> to \<open>9\<close> and on all the
  letters \<open>A\<close> to \<open>Z\<close> and \<open>a\<close> to \<open>z\<close>, not only on \<open>a\<close> to \<open>f\<close>: the letter
  branch compares with \<open>'z'\<close>. At the character \<open>g\<close>, for which the specification's
  nibble decoding has no value, it succeeds with the value 16; so the pair \<open>G0\<close> decodes
  to the byte 0 and the line \<open>:G0\<close> is accepted instead of stopping the decoding.
\<close>

theorem hex2nibble_accepts_nonhex:
  "(fst (hex2nibble c v) \<longleftrightarrow>
       (of_char CHR ''0'' \<le> (of_char c :: nat) \<and> (of_char c :: nat) \<le> of_char CHR ''9'')
     \<or> (of_char CHR ''A'' \<le> (of_char c :: nat) \<and> (of_char c :: nat) \<le> of_char CHR ''Z'')
     \<or> (of_char CHR ''a'' \<le> (of_char c :: nat) \<and> (of_char c :: nat) \<le> of_char CHR ''z''))
   \<and> nibble_of CHR ''g'' = None
   \<and> hex2nibble CHR ''g'' v = (True, push_bit 4 v OR 16)
   \<and> nibble_of CHR ''G'' = None
   \<and> parseHex ''G0'' = (True, 0)
   \<and> fst (processRecord stack '':G0'' rcd)"
  using hex2nibble_success [of c v]
  by (simp add: nibble_of_def hex_table_def parser_defs)

text \<open>
  Claim C10. The line \<open>:00\<close> holds one decoded byte, zero. \<open>processRecord\<close> accepts it
  whatever the stack and the record hold: no minimum of five decoded bytes is imposed. The
  address and the type of the record returned are read from the array positions 1 to 3,
  which the line never wrote: they are what the stack held; no payload byte is copied.
\<close>

theorem processRecord_accepts_single_byte:
  "processRecord stack '':00'' rcd =
     (True, rcd\<lparr>count := 0, addr := ucast (stack 2) OR push_bit 8 (ucast (stack 1)),
              type := stack 3\<rparr>)"
  by (simp add: parser_defs)

section \<open>Properties of the assembler and the stager\<close>

lemma step_rejected:
  "\<not> fst (processRecord stack line rec0) \<Longrightarrow>
   readIntelHex_step pf stack rec0 st line = ([], Continue st)"
  by (cases "processRecord stack line rec0") (simp add: readIntelHex_step_def)

lemma unat_offset_wrap:
  "unat ((x + ucast c) mod 65536 :: u32) = (unat x + unat c) mod 65536" for c :: u8
proof -
  have c: "unat (ucast c :: u32) = unat c"
    using unsigned_less [of c, where 'a = nat] by (simp add: unsigned_ucast_eq take_bit_nat_eq_self)
  have "unat ((x + ucast c) mod 65536 :: u32) = ((unat x + unat c) mod 2 ^ 32) mod 65536"
    by (simp add: unat_mod unat_word_ariths c)
  also have "\<dots> = (unat x + unat c) mod 65536"
    by (rule mod_mod_cancel) simp
  finally show ?thesis .
qed

lemma step_accepted:
  assumes "processRecord stack line rec0 = (True, rec)"
  shows "readIntelHex_step pf stack rec0 st line =
     (if type rec = TYPE_DATA then
        (if (offset st + ucast (count rec)) mod 65536 mod 1024 = 0
         then [UartPuts (''Received block'' @ crlf)] else [],
         Continue (st\<lparr>offset := (offset st + ucast (count rec)) mod 65536,
                        flashbuf := memcpy (flashbuf st) (unat (offset st)) (data rec) 0 (unat (count rec)),
                        accepted := accepted st + 1\<rparr>))
      else if type rec = TYPE_EOF then (flashImage pf (flashbuf st) (offset st), Rebooting)
      else if type rec = TYPE_EXTLIN then ([], Continue (st\<lparr>offset := 0, accepted := accepted st + 1\<rparr>))
      else ([], Continue (st\<lparr>accepted := accepted st + 1\<rparr>)))"
  using assms
  by (simp add: readIntelHex_step_def Let_def TYPE_DATA_def TYPE_EOF_def TYPE_EXTSEG_def
      TYPE_STARTSEG_def TYPE_EXTLIN_def TYPE_STARTLIN_def)

lemma accepted_pair:
  "fst (processRecord stack line rec0) \<Longrightarrow>
   processRecord stack line rec0 = (True, snd (processRecord stack line rec0))"
  by (simp add: prod_eq_iff)

text \<open>
  Extra X3. What the body does on an accepted record, by type. DATA: the \<open>count\<close> payload
  bytes are copied to the indices from the cursor on, without wrapping, and nothing else of
  the memory changes; the cursor advances by \<open>count\<close> modulo 65536; a record that ends at
  or before index 65536 changes no byte behind the staging buffer.
  EXTENDED-LINEAR-ADDRESS: the cursor becomes 0, whatever it was, the buffer stays. Every
  other type but END-OF-FILE (the three ignored address types and the unrecognized tags):
  cursor and buffer stay.
\<close>

theorem readIntelHex_step_table:
  assumes "processRecord stack line rec0 = (True, rec)"
  shows "(type rec = TYPE_DATA \<longrightarrow>
            (\<exists>out st'. readIntelHex_step pf stack rec0 st line = (out, Continue st')
               \<and> flashbuf st' = (\<lambda>i. if unat (offset st) \<le> i \<and> i < unat (offset st) + unat (count rec)
                                      then data rec (i - unat (offset st)) else flashbuf st i)
               \<and> unat (offset st') = (unat (offset st) + unat (count rec)) mod 65536
               \<and> (unat (offset st) + unat (count rec) \<le> 65536 \<longrightarrow>
                    (\<forall>i. 65536 \<le> i \<longrightarrow> flashbuf st' i = flashbuf st i))))
       \<and> (type rec = TYPE_EXTLIN \<longrightarrow>
            (\<exists>st'. readIntelHex_step pf stack rec0 st line = ([], Continue st')
               \<and> offset st' = 0 \<and> flashbuf st' = flashbuf st))
       \<and> (type rec \<noteq> TYPE_DATA \<and> type rec \<noteq> TYPE_EOF \<and> type rec \<noteq> TYPE_EXTLIN \<longrightarrow>
            (\<exists>st'. readIntelHex_step pf stack rec0 st line = ([], Continue st')
               \<and> offset st' = offset st \<and> flashbuf st' = flashbuf st))"
  by (simp add: step_accepted [OF assms] unat_offset_wrap memcpy_def TYPE_DATA_def TYPE_EXTLIN_def
      TYPE_EOF_def cong: if_cong)

text \<open>
  Three accepted lines at cursor 65533: a DATA record of three bytes, which fills the last
  three bytes of the buffer and wraps the cursor to 0, an EXTENDED-LINEAR-ADDRESS record
  and an EXTENDED-SEGMENT-ADDRESS record.
\<close>

theorem readIntelHex_step_table_witness:
  "(fst (processRecord blank_stack '':0300300002337A1E'' blank_record)
    \<and> type (snd (processRecord blank_stack '':0300300002337A1E'' blank_record)) = TYPE_DATA
    \<and> unat (offset (blank_loader\<lparr>offset := 65533\<rparr>))
          + unat (count (snd (processRecord blank_stack '':0300300002337A1E'' blank_record)))
        \<le> 65536
    \<and> (\<exists>out st'. readIntelHex_step example_platform blank_stack blank_record
                      (blank_loader\<lparr>offset := 65533\<rparr>) '':0300300002337A1E'' = (out, Continue st')
           \<and> map (flashbuf st') [65532, 65533, 65534, 65535, 65536] = [0, 0x02, 0x33, 0x7A, 0]
           \<and> unat (offset st') = 0))
   \<and> (fst (processRecord blank_stack '':020000040000FA'' blank_record)
    \<and> type (snd (processRecord blank_stack '':020000040000FA'' blank_record)) = TYPE_EXTLIN
    \<and> (\<exists>st'. readIntelHex_step example_platform blank_stack blank_record
                      (blank_loader\<lparr>offset := 65533\<rparr>) '':020000040000FA'' = ([], Continue st')
           \<and> offset st' = 0 \<and> flashbuf st' = flashbuf blank_loader))
   \<and> (fst (processRecord blank_stack '':020000021200EA'' blank_record)
    \<and> type (snd (processRecord blank_stack '':020000021200EA'' blank_record)) = TYPE_EXTSEG
    \<and> (\<exists>st'. readIntelHex_step example_platform blank_stack blank_record
                      (blank_loader\<lparr>offset := 65533\<rparr>) '':020000021200EA'' = ([], Continue st')
           \<and> offset st' = 65533 \<and> flashbuf st' = flashbuf blank_loader))"
proof -
  let ?st = "blank_loader\<lparr>offset := 65533\<rparr>"
  let ?d = "snd (processRecord blank_stack '':0300300002337A1E'' blank_record)"
  let ?l = "snd (processRecord blank_stack '':020000040000FA'' blank_record)"
  let ?s = "snd (processRecord blank_stack '':020000021200EA'' blank_record)"
  have d: "fst (processRecord blank_stack '':0300300002337A1E'' blank_record)"
    and dt: "type ?d = TYPE_DATA" and dc: "count ?d = 3"
    and dd: "map (data ?d) [0, 1, 2] = [0x02, 0x33, 0x7A]"
    by (simp_all add: parser_defs TYPE_DATA_def)
  have l: "fst (processRecord blank_stack '':020000040000FA'' blank_record)"
    and lt: "type ?l = TYPE_EXTLIN"
    by (simp_all add: parser_defs TYPE_EXTLIN_def)
  have s: "fst (processRecord blank_stack '':020000021200EA'' blank_record)"
    and st: "type ?s = TYPE_EXTSEG"
    by (simp_all add: parser_defs TYPE_EXTSEG_def)
  have off: "unat (offset ?st) = 65533" and buf: "flashbuf ?st = (\<lambda>i. 0)"
    by (simp_all add: blank_loader_def)
  from readIntelHex_step_table [OF accepted_pair [OF d], of example_platform ?st] dt
  obtain out st' where
    "readIntelHex_step example_platform blank_stack blank_record ?st '':0300300002337A1E''
       = (out, Continue st')"
    and "flashbuf st' = (\<lambda>i. if unat (offset ?st) \<le> i \<and> i < unat (offset ?st) + unat (count ?d)
                              then data ?d (i - unat (offset ?st)) else flashbuf ?st i)"
    and "unat (offset st') = (unat (offset ?st) + unat (count ?d)) mod 65536"
    by blast
  with dd have data_case:
    "\<exists>out st'. readIntelHex_step example_platform blank_stack blank_record ?st
                 '':0300300002337A1E'' = (out, Continue st')
       \<and> map (flashbuf st') [65532, 65533, 65534, 65535, 65536] = [0, 0x02, 0x33, 0x7A, 0]
       \<and> unat (offset st') = 0"
    by (simp add: off buf dc)
  from readIntelHex_step_table [OF accepted_pair [OF l], of example_platform ?st] lt
  have extlin_case:
    "\<exists>st'. readIntelHex_step example_platform blank_stack blank_record ?st
                 '':020000040000FA'' = ([], Continue st')
       \<and> offset st' = 0 \<and> flashbuf st' = flashbuf blank_loader"
    by (simp add: blank_loader_def)
  from readIntelHex_step_table [OF accepted_pair [OF s], of example_platform ?st] st
  have extseg_case:
    "\<exists>st'. readIntelHex_step example_platform blank_stack blank_record ?st
                 '':020000021200EA'' = ([], Continue st')
       \<and> offset st' = 65533 \<and> flashbuf st' = flashbuf blank_loader"
    by (simp add: blank_loader_def TYPE_EXTSEG_def TYPE_DATA_def TYPE_EOF_def TYPE_EXTLIN_def)
  have fit: "unat (offset ?st) + unat (count ?d) \<le> 65536"
    by (simp add: off dc)
  from d dt fit data_case l lt extlin_case s st extseg_case show ?thesis
    by blast
qed

lemma step_data_line:
  assumes "length payload = unat cnt"
  shows "snd (readIntelHex_step pf stack rec0 st (encode_record cnt a TYPE_DATA payload)) =
     Continue (st\<lparr>offset := (offset st + ucast cnt) mod 65536,
                    flashbuf := (\<lambda>i. if unat (offset st) \<le> i \<and> i < unat (offset st) + unat cnt
                                     then payload ! (i - unat (offset st)) else flashbuf st i),
                    accepted := accepted st + 1\<rparr>)"
proof -
  let ?bs = "record_bytes cnt a TYPE_DATA payload"
  have "memcpy (flashbuf st) (unat (offset st))
          (memcpy (data rec0) 0 (decoded_buf stack ?bs) 4 (unat cnt)) 0 (unat cnt)
        = (\<lambda>i. if unat (offset st) \<le> i \<and> i < unat (offset st) + unat cnt
                then payload ! (i - unat (offset st)) else flashbuf st i)"
  proof (rule ext)
    fix i
    show "memcpy (flashbuf st) (unat (offset st))
            (memcpy (data rec0) 0 (decoded_buf stack ?bs) 4 (unat cnt)) 0 (unat cnt) i
          = (if unat (offset st) \<le> i \<and> i < unat (offset st) + unat cnt
             then payload ! (i - unat (offset st)) else flashbuf st i)"
    proof (cases "unat (offset st) \<le> i \<and> i < unat (offset st) + unat cnt")
      case True
      then have lt: "i - unat (offset st) < unat cnt"
        by arith
      then have "i - unat (offset st) < length payload"
        using assms by simp
      from decoded_buf_record(5) [OF record_bytes_shape this, of stack cnt a TYPE_DATA] True lt
      show ?thesis
        by (simp add: memcpy_def)
    next
      case False
      then show ?thesis
        by (auto simp: memcpy_def)
    qed
  qed
  then show ?thesis
    by (simp add: step_accepted [OF processRecord_encode_record [OF assms]])
qed

lemma step_encoded_data:
  assumes "length payload = unat cnt"
  shows "readIntelHex_step pf stack rec0 st (encode_record cnt a TYPE_DATA payload) =
     (if (offset st + ucast cnt) mod 65536 mod 1024 = 0
      then [UartPuts (''Received block'' @ crlf)] else [],
      Continue (st\<lparr>offset := (offset st + ucast cnt) mod 65536,
                     flashbuf := (\<lambda>i. if unat (offset st) \<le> i \<and> i < unat (offset st) + unat cnt
                                      then payload ! (i - unat (offset st)) else flashbuf st i),
                     accepted := accepted st + 1\<rparr>))"
  using step_data_line [OF assms, of pf stack rec0 st a]
  by (simp add: step_accepted [OF processRecord_encode_record [OF assms]] prod_eq_iff)

lemma snd_readIntelHex_Cons:
  "snd (readIntelHex pf g k st (l # ls)) =
     (case snd (readIntelHex_step pf (fst (g k)) (snd (g k)) st l) of
        Continue st' \<Rightarrow> snd (readIntelHex pf g (Suc k) st' ls)
      | Rebooting \<Rightarrow> Rebooting)"
  by (simp split: prod.splits outcome.splits)

lemma snd_readIntelHex_append:
  "snd (readIntelHex pf g k st (xs @ ys)) =
     (case snd (readIntelHex pf g k st xs) of
        Continue st' \<Rightarrow> snd (readIntelHex pf g (k + length xs) st' ys)
      | Rebooting \<Rightarrow> Rebooting)"
proof (induction xs arbitrary: k st)
  case Nil
  then show ?case by simp
next
  case (Cons x xs)
  show ?case
    by (simp only: append_Cons snd_readIntelHex_Cons Cons.IH split: outcome.splits) simp
qed

lemma run_fill:
  assumes c: "unat cnt = c" and "unat (offset st) + n * c < 65536"
  shows "\<exists>st'. snd (readIntelHex pf g k st
                     (replicate n (encode_record cnt a TYPE_DATA (replicate c x)))) = Continue st'
           \<and> unat (offset st') = unat (offset st) + n * c
           \<and> flashbuf st' = (\<lambda>i. if unat (offset st) \<le> i \<and> i < unat (offset st) + n * c
                                  then x else flashbuf st i)"
  using assms(2)
proof (induction n arbitrary: k st)
  case 0
  then show ?case by (auto simp: fun_eq_iff)
next
  case (Suc n)
  let ?L = "encode_record cnt a TYPE_DATA (replicate c x)"
  let ?st1 = "st\<lparr>offset := (offset st + ucast cnt) mod 65536,
                    flashbuf := (\<lambda>i. if unat (offset st) \<le> i \<and> i < unat (offset st) + unat cnt
                                     then replicate c x ! (i - unat (offset st)) else flashbuf st i),
                    accepted := accepted st + 1\<rparr>"
  have len: "length (replicate c x) = unat cnt"
    using c by simp
  have step: "snd (readIntelHex_step pf (fst (g k)) (snd (g k)) st ?L) = Continue ?st1"
    by (rule step_data_line [OF len])
  from Suc.prems have fit: "unat (offset st) + c < 65536"
    by simp
  have "(unat (offset st) + unat cnt) mod 65536 = unat (offset st) + c"
    using fit c by simp
  then have "unat ((offset st + ucast cnt) mod 65536) = unat (offset st) + c"
    by (simp only: unat_offset_wrap)
  then have off1: "unat (offset ?st1) = unat (offset st) + c"
    by simp
  have buf1: "flashbuf ?st1 = (\<lambda>i. if unat (offset st) \<le> i \<and> i < unat (offset st) + c
                                   then x else flashbuf st i)"
    by (auto simp: c fun_eq_iff)
  have "unat (offset ?st1) + n * c < 65536"
    using Suc.prems unfolding off1 by simp
  from Suc.IH [OF this, of "Suc k"] obtain st' where
    run: "snd (readIntelHex pf g (Suc k) ?st1 (replicate n ?L)) = Continue st'"
    and off: "unat (offset st') = unat (offset ?st1) + n * c"
    and buf: "flashbuf st' = (\<lambda>i. if unat (offset ?st1) \<le> i \<and> i < unat (offset ?st1) + n * c
                                    then x else flashbuf ?st1 i)"
    by blast
  have "snd (readIntelHex pf g k st (replicate (Suc n) ?L)) = Continue st'"
    by (simp only: replicate_Suc snd_readIntelHex_Cons step outcome.case run)
  moreover have "unat (offset st') = unat (offset st) + Suc n * c"
    unfolding off off1 by simp
  moreover have "flashbuf st' = (\<lambda>i. if unat (offset st) \<le> i \<and> i < unat (offset st) + Suc n * c
                                      then x else flashbuf st i)"
    unfolding buf off1 buf1 by (auto simp: fun_eq_iff)
  ultimately show ?case by blast
qed

text \<open>
  Claim C1, on a transfer that passes the end of the buffer in the middle of a record. After
  257 DATA records of 255 bytes \<open>0x11\<close> the cursor is 65535. A further DATA record with the
  two bytes \<open>0xAA 0xBB\<close> is not rejected and the cursor wraps to 1; but \<open>memcpy\<close> is given
  the unwrapped destination, so \<open>0xAA\<close> goes to index 65535 and \<open>0xBB\<close> to index 65536,
  the first byte behind the 65536 bytes that \<open>flashbuf\<close> reserves for the image, while
  index 0 keeps the byte \<open>0x11\<close> of the first record.
\<close>

theorem data_record_straddles_buffer_end:
  "\<exists>st1 st2.
      snd (readIntelHex pf g 0 blank_loader
             (replicate 257 (encode_record 255 0 TYPE_DATA (replicate 255 0x11)))) = Continue st1
    \<and> snd (readIntelHex pf g 0 blank_loader
             (replicate 257 (encode_record 255 0 TYPE_DATA (replicate 255 0x11))
              @ [encode_record 2 0 TYPE_DATA [0xAA, 0xBB]])) = Continue st2
    \<and> unat (offset st1) = 65535 \<and> flashbuf st1 0 = 0x11 \<and> flashbuf st1 65536 = 0
    \<and> unat (offset st2) = 1 \<and> flashbuf st2 0 = 0x11 \<and> flashbuf st2 65535 = 0xAA
    \<and> flashbuf st2 65536 = 0xBB"
proof -
  let ?L = "encode_record 255 0 TYPE_DATA (replicate 255 0x11)"
  let ?M = "encode_record 2 0 TYPE_DATA [0xAA, 0xBB]"
  have c: "unat (255 :: u8) = 255"
    by simp
  have fit: "unat (offset blank_loader) + 257 * 255 < 65536"
    by (simp add: blank_loader_def)
  from run_fill [OF c fit, of pf g 0 0 "0x11"] obtain st1 where
    run1: "snd (readIntelHex pf g 0 blank_loader (replicate 257 ?L)) = Continue st1"
    and off1: "unat (offset st1) = unat (offset blank_loader) + 257 * 255"
    and buf1: "flashbuf st1 = (\<lambda>i. if unat (offset blank_loader) \<le> i
                                       \<and> i < unat (offset blank_loader) + 257 * 255
                                    then 0x11 else flashbuf blank_loader i)"
    by blast
  have o1: "unat (offset st1) = 65535"
    unfolding off1 by (simp add: blank_loader_def)
  have b1: "flashbuf st1 = (\<lambda>i. if i < 65535 then 0x11 else 0)"
    unfolding buf1 by (simp add: blank_loader_def cong: if_cong)
  let ?st2 = "st1\<lparr>offset := (offset st1 + ucast (2 :: u8)) mod 65536,
                    flashbuf := (\<lambda>i. if unat (offset st1) \<le> i \<and> i < unat (offset st1) + unat (2 :: u8)
                                     then [0xAA, 0xBB] ! (i - unat (offset st1)) else flashbuf st1 i),
                    accepted := accepted st1 + 1\<rparr>"
  have len: "length [0xAA, 0xBB :: u8] = unat (2 :: u8)"
    by simp
  have step: "snd (readIntelHex_step pf (fst (g 257)) (snd (g 257)) st1 ?M) = Continue ?st2"
    by (rule step_data_line [OF len])
  have run2: "snd (readIntelHex pf g 0 blank_loader (replicate 257 ?L @ [?M])) = Continue ?st2"
    by (simp add: snd_readIntelHex_append run1 snd_readIntelHex_Cons step del: readIntelHex.simps(2))
  have "unat ((offset st1 + ucast (2 :: u8)) mod 65536) = (unat (offset st1) + unat (2 :: u8)) mod 65536"
    by (rule unat_offset_wrap)
  then have o2: "unat (offset ?st2) = 1"
    by (simp add: o1)
  have b2: "flashbuf ?st2 0 = 0x11" "flashbuf ?st2 65535 = 0xAA" "flashbuf ?st2 65536 = 0xBB"
    by (simp_all add: o1 b1)
  have b1': "flashbuf st1 0 = 0x11" "flashbuf st1 65536 = 0"
    by (simp_all add: b1)
  from run1 run2 o1 o2 b1' b2 show ?thesis
    by blast
qed

text \<open>
  Claim C8, the DATA row at a record that straddles the end of the buffer. With the cursor
  at 65535 (the state the 257 records above lead to) the accepted DATA record
  \<open>:02000000AABB99\<close> advances the cursor to 1, wrapped as the table says, but of its two
  payload bytes only \<open>0xAA\<close> goes into the staging buffer, at index 65535: \<open>0xBB\<close> is
  written at index 65536, behind the buffer, and index 0 is left as it was. This holds for
  every content of the buffer and of the uninitialised locals. It is the unwrapped
  \<open>memcpy\<close> that the transfer above runs into; the rows of the other types are not
  touched by it.
\<close>

theorem data_row_writes_behind_buffer:
  "fst (processRecord stack '':02000000AABB99'' rec0)
   \<and> type (snd (processRecord stack '':02000000AABB99'' rec0)) = TYPE_DATA
   \<and> count (snd (processRecord stack '':02000000AABB99'' rec0)) = 2
   \<and> (\<exists>out st'. readIntelHex_step pf stack rec0 (st\<lparr>offset := 65535\<rparr>) '':02000000AABB99''
                   = (out, Continue st')
         \<and> unat (offset st') = 1
         \<and> flashbuf st' 65535 = 0xAA \<and> flashbuf st' 65536 = 0xBB
         \<and> flashbuf st' 0 = flashbuf st 0)"
proof -
  have len: "length [0xAA, 0xBB :: u8] = unat (2 :: u8)"
    by simp
  have line: "encode_record 2 0 TYPE_DATA [0xAA, 0xBB] = '':02000000AABB99''"
    by (simp add: encode_record_def record_bytes_def record_fields_def encode_bytes_def
      hex_pair_def hex_digit_def TYPE_DATA_def mask_eq_exp_minus_1)
  have p: "processRecord stack '':02000000AABB99'' rec0 =
     (True, rec0\<lparr>count := 2, addr := 0, type := TYPE_DATA,
              data := memcpy (data rec0) 0 (decoded_buf stack (record_bytes 2 0 TYPE_DATA [0xAA, 0xBB])) 4
                        (unat (2 :: u8))\<rparr>)"
    using processRecord_encode_record [OF len, of stack 0 TYPE_DATA rec0] by (simp only: line)
  have w: "unat ((65535 + ucast (2 :: u8)) mod 65536 :: u32) = 1"
    by simp
  have s: "readIntelHex_step pf stack rec0 (st\<lparr>offset := 65535\<rparr>) '':02000000AABB99'' =
     (if (offset (st\<lparr>offset := 65535\<rparr>) + ucast (2 :: u8)) mod 65536 mod 1024 = 0
      then [UartPuts (''Received block'' @ crlf)] else [],
      Continue (st\<lparr>offset := 65535\<rparr>\<lparr>offset := (offset (st\<lparr>offset := 65535\<rparr>) + ucast (2 :: u8)) mod 65536,
                     flashbuf := (\<lambda>i. if unat (offset (st\<lparr>offset := 65535\<rparr>)) \<le> i
                                          \<and> i < unat (offset (st\<lparr>offset := 65535\<rparr>)) + unat (2 :: u8)
                                      then [0xAA, 0xBB] ! (i - unat (offset (st\<lparr>offset := 65535\<rparr>)))
                                      else flashbuf (st\<lparr>offset := 65535\<rparr>) i),
                     accepted := accepted (st\<lparr>offset := 65535\<rparr>) + 1\<rparr>))"
    using step_encoded_data [OF len, of pf stack rec0 "st\<lparr>offset := 65535\<rparr>" 0]
    by (simp only: line)
  show ?thesis
    unfolding p s by (simp add: w)
qed

lemma word_of_le_bytes:
  "ucast (ucast w :: u8) OR push_bit 8 (ucast (ucast (drop_bit 8 w) :: u8))
     OR push_bit 16 (ucast (ucast (drop_bit 16 w) :: u8))
     OR push_bit 24 (ucast (ucast (drop_bit 24 w) :: u8)) = w" for w :: u32
proof (rule bit_word_eqI)
  fix n :: nat
  assume n: "n < LENGTH(32)"
  consider "n < 8" | "8 \<le> n" "n < 16" | "16 \<le> n" "n < 24" | "24 \<le> n"
    by linarith
  then show "bit (ucast (ucast w :: u8) OR push_bit 8 (ucast (ucast (drop_bit 8 w) :: u8))
     OR push_bit 16 (ucast (ucast (drop_bit 16 w) :: u8))
     OR push_bit 24 (ucast (ucast (drop_bit 24 w) :: u8)) :: u32) n = bit w n"
    using n by cases (auto simp: bit_simps le_add_diff_inverse)
qed

lemma word_at_le32: "word_at (le32 w @ bs) 0 = w"
  using word_of_le_bytes [of w] by (simp add: word_at_def le32_def)

lemma word_at_shift: "length xs = k \<Longrightarrow> word_at (xs @ bs) (k + i) = word_at bs i"
  by (simp add: word_at_def nth_append)

lemma length_le32: "length (le32 w) = 4"
  by (simp add: le32_def)

lemma header_words:
  "word_at (header_bytes h @ bs) 0 = hdr_magic1 h"
  "word_at (header_bytes h @ bs) 4 = hdr_magic2 h"
  "word_at (header_bytes h @ bs) 8 = hdr_length h"
  "word_at (header_bytes h @ bs) 12 = hdr_crc32 h"
proof -
  let ?m1 = "le32 (hdr_magic1 h)" and ?m2 = "le32 (hdr_magic2 h)"
  let ?l = "le32 (hdr_length h)" and ?c = "le32 (hdr_crc32 h)"
  have hb: "header_bytes h @ bs = ?m1 @ ?m2 @ ?l @ ?c @ bs"
    by (simp add: header_bytes_def)
  show "word_at (header_bytes h @ bs) 0 = hdr_magic1 h"
    unfolding hb by (rule word_at_le32)
  have "word_at (?m1 @ (?m2 @ ?l @ ?c @ bs)) (4 + 0) = word_at (?m2 @ ?l @ ?c @ bs) 0"
    by (rule word_at_shift) (rule length_le32)
  then show "word_at (header_bytes h @ bs) 4 = hdr_magic2 h"
    unfolding hb by (simp add: word_at_le32)
  have "word_at ((?m1 @ ?m2) @ (?l @ ?c @ bs)) (8 + 0) = word_at (?l @ ?c @ bs) 0"
    by (rule word_at_shift) (simp add: length_le32)
  then show "word_at (header_bytes h @ bs) 8 = hdr_length h"
    unfolding hb by (simp add: word_at_le32)
  have "word_at ((?m1 @ ?m2 @ ?l) @ (?c @ bs)) (12 + 0) = word_at (?c @ bs) 0"
    by (rule word_at_shift) (simp add: length_le32)
  then show "word_at (header_bytes h @ bs) 12 = hdr_crc32 h"
    unfolding hb by (simp add: word_at_le32)
qed

lemma length_header_bytes: "length (header_bytes h) = 16"
  by (simp add: header_bytes_def length_le32)

lemma total_length_no_wrap:
  "unat n < 65536 \<Longrightarrow> unat (sizeof_tFlashHeader + n) = 16 + unat n" for n :: u32
  by (simp add: sizeof_tFlashHeader_def unat_word_ariths)

lemma flashImage_events:
  assumes "unat n < 65536"
  shows "flashImage pf img n =
     [UartPuts (''Storing new image in flash and then rebooting'' @ crlf),
      SaveAndDisableInterrupts,
      FlashRangeErase FLASH_IMAGE_OFFSET ((sizeof_tFlashHeader + n + 4095) AND 0xfffff000),
      FlashRangeProgram FLASH_IMAGE_OFFSET
        (header_bytes \<lparr>hdr_magic1 = FLASH_MAGIC1 pf, hdr_magic2 = FLASH_MAGIC2 pf, hdr_length = n,
                       hdr_crc32 = crc32 (map img [0..<unat n]) 0xffffffff\<rparr>
         @ map img [0..<unat n]),
      RestoreInterrupts,
      UartPuts (''Rebooting into flashloader in 1 second'' @ crlf),
      ScratchWrite 0 (FLASH_MAGIC1 pf),
      ScratchWrite 1 (XIP_BASE pf + FLASH_IMAGE_OFFSET),
      WatchdogReboot 0 0 1000]"
  by (simp add: flashImage_def Let_def total_length_no_wrap [OF assms] length_header_bytes)

text \<open>
  Claim C5. An accepted END-OF-FILE record at cursor \<open>n\<close> (below 65536, as the cursor
  always is) calls \<open>flashImage\<close> with the length \<open>n\<close>. Its flash operations are one erase
  and one program call at \<open>FLASH_IMAGE_OFFSET\<close>; the block programmed reads back as the two
  magic constants, the length \<open>n\<close>, the CRC of the first \<open>n\<close> image bytes with seed
  \<open>0xFFFFFFFF\<close>, and from byte 16 on those \<open>n\<close> image bytes.
\<close>

theorem eof_stages_image:
  assumes "processRecord stack line rec0 = (True, rec)" and "type rec = TYPE_EOF"
    and "unat (offset st) < 65536"
  shows "readIntelHex_step pf stack rec0 st line = (flashImage pf (flashbuf st) (offset st), Rebooting)
       \<and> (\<exists>prog. flash_ops (flashImage pf (flashbuf st) (offset st)) =
                    [FlashRangeErase FLASH_IMAGE_OFFSET
                       ((sizeof_tFlashHeader + offset st + 4095) AND 0xfffff000),
                     FlashRangeProgram FLASH_IMAGE_OFFSET prog]
              \<and> word_at prog 0 = FLASH_MAGIC1 pf
              \<and> word_at prog 4 = FLASH_MAGIC2 pf
              \<and> word_at prog 8 = offset st
              \<and> word_at prog 12 = crc32 (map (flashbuf st) [0..<unat (offset st)]) 0xFFFFFFFF
              \<and> drop 16 prog = map (flashbuf st) [0..<unat (offset st)])"
proof
  show "readIntelHex_step pf stack rec0 st line = (flashImage pf (flashbuf st) (offset st), Rebooting)"
    using assms(2) by (simp add: step_accepted [OF assms(1)] TYPE_EOF_def TYPE_DATA_def)
next
  let ?h = "\<lparr>hdr_magic1 = FLASH_MAGIC1 pf, hdr_magic2 = FLASH_MAGIC2 pf, hdr_length = offset st,
              hdr_crc32 = crc32 (map (flashbuf st) [0..<unat (offset st)]) 0xffffffff\<rparr>"
  let ?img = "map (flashbuf st) [0..<unat (offset st)]"
  have "flash_ops (flashImage pf (flashbuf st) (offset st)) =
          [FlashRangeErase FLASH_IMAGE_OFFSET
             ((sizeof_tFlashHeader + offset st + 4095) AND 0xfffff000),
           FlashRangeProgram FLASH_IMAGE_OFFSET (header_bytes ?h @ ?img)]"
    by (simp add: flashImage_events [OF assms(3)] flash_ops_def)
  moreover have "word_at (header_bytes ?h @ ?img) 0 = FLASH_MAGIC1 pf"
    and "word_at (header_bytes ?h @ ?img) 4 = FLASH_MAGIC2 pf"
    and "word_at (header_bytes ?h @ ?img) 8 = offset st"
    and "word_at (header_bytes ?h @ ?img) 12 = crc32 ?img 0xFFFFFFFF"
    by (simp_all add: header_words)
  moreover have "drop 16 (header_bytes ?h @ ?img) = ?img"
    by (simp add: length_header_bytes)
  ultimately show "\<exists>prog. flash_ops (flashImage pf (flashbuf st) (offset st)) =
                    [FlashRangeErase FLASH_IMAGE_OFFSET
                       ((sizeof_tFlashHeader + offset st + 4095) AND 0xfffff000),
                     FlashRangeProgram FLASH_IMAGE_OFFSET prog]
              \<and> word_at prog 0 = FLASH_MAGIC1 pf
              \<and> word_at prog 4 = FLASH_MAGIC2 pf
              \<and> word_at prog 8 = offset st
              \<and> word_at prog 12 = crc32 (map (flashbuf st) [0..<unat (offset st)]) 0xFFFFFFFF
              \<and> drop 16 prog = map (flashbuf st) [0..<unat (offset st)]"
    by blast
qed

text \<open>An END-OF-FILE line at cursor 2, over a buffer of zeros.\<close>

theorem eof_stages_image_witness:
  "fst (processRecord blank_stack '':00000001FF'' blank_record)
   \<and> type (snd (processRecord blank_stack '':00000001FF'' blank_record)) = TYPE_EOF
   \<and> unat (offset (blank_loader\<lparr>offset := 2\<rparr>)) < 65536
   \<and> readIntelHex_step example_platform blank_stack blank_record (blank_loader\<lparr>offset := 2\<rparr>)
         '':00000001FF''
       = (flashImage example_platform (flashbuf (blank_loader\<lparr>offset := 2\<rparr>)) 2, Rebooting)
   \<and> (\<exists>prog. flash_ops (flashImage example_platform (flashbuf (blank_loader\<lparr>offset := 2\<rparr>)) 2)
              = [FlashRangeErase 0x20000 0x1000, FlashRangeProgram 0x20000 prog]
         \<and> word_at prog 0 = 0x8ECD5EFB
         \<and> word_at prog 4 = 0xC5AE52A9
         \<and> word_at prog 8 = 2
         \<and> word_at prog 12 = crc32 [0, 0] 0xFFFFFFFF
         \<and> drop 16 prog = [0, 0])"
proof -
  let ?st = "blank_loader\<lparr>offset := 2\<rparr>"
  have acc: "fst (processRecord blank_stack '':00000001FF'' blank_record)"
    and ty: "type (snd (processRecord blank_stack '':00000001FF'' blank_record)) = TYPE_EOF"
    by (simp_all add: parser_defs TYPE_EOF_def)
  have upt2: "[0..<2::nat] = [0, 1]"
    by (simp add: upt_rec)
  have off: "offset ?st = 2" and lt: "unat (offset ?st) < 65536"
    and img: "map (flashbuf ?st) [0..<unat (offset ?st)] = [0, 0]"
    by (simp_all add: blank_loader_def upt2)
  have vals: "FLASH_IMAGE_OFFSET = 0x20000"
    "(sizeof_tFlashHeader + offset ?st + 4095) AND 0xfffff000 = 0x1000"
    "FLASH_MAGIC1 example_platform = 0x8ECD5EFB" "FLASH_MAGIC2 example_platform = 0xC5AE52A9"
    by (simp_all add: FLASH_IMAGE_OFFSET_def sizeof_tFlashHeader_def example_platform_def off)
  from eof_stages_image [OF accepted_pair [OF acc] ty lt, of example_platform]
  show ?thesis
    unfolding img vals unfolding off using acc ty lt by simp
qed

lemma programmed_flashImage:
  assumes "unat n < 65536"
  shows "programmed (flashImage pf img n) =
     zip (map (\<lambda>i. FLASH_IMAGE_OFFSET + of_nat i) [0..<16 + unat n])
       (header_bytes \<lparr>hdr_magic1 = FLASH_MAGIC1 pf, hdr_magic2 = FLASH_MAGIC2 pf, hdr_length = n,
                       hdr_crc32 = crc32 (map img [0..<unat n]) 0xffffffff\<rparr>
         @ map img [0..<unat n])"
  by (simp add: flashImage_events [OF assms] length_header_bytes)

lemma take8_header_bytes:
  "take 8 (header_bytes h @ bs) = le32 (hdr_magic1 h) @ le32 (hdr_magic2 h)"
  by (simp add: header_bytes_def length_le32)

lemma magic_not_last:
  assumes "unat n < 65536"
  shows "\<not> magic_programmed_last (flashImage pf img n)"
proof
  let ?s = "programmed (flashImage pf img n)"
  let ?f = "\<lambda>i. FLASH_IMAGE_OFFSET + (of_nat i :: u32)"
  assume "magic_programmed_last (flashImage pf img n)"
  then have eq: "map fst (drop (length ?s - 8) ?s) = magic_offsets"
    by (simp add: magic_programmed_last_def Let_def)
  have len: "length ?s = 16 + unat n"
    by (simp add: programmed_flashImage [OF assms] length_header_bytes)
  have "map fst ?s = map ?f [0..<16 + unat n]"
    by (simp add: programmed_flashImage [OF assms] length_header_bytes)
  then have "map fst (drop (length ?s - 8) ?s) = drop (8 + unat n) (map ?f [0..<16 + unat n])"
    by (simp add: len drop_map [symmetric])
  also have "\<dots> = map ?f [8 + unat n..<16 + unat n]"
    by (simp add: drop_map add.commute)
  finally have "map fst (drop (length ?s - 8) ?s) = map ?f [8 + unat n..<16 + unat n]" .
  with eq have "map ?f [8 + unat n..<16 + unat n] = map ?f [0..<8]"
    by (simp add: magic_offsets_def)
  then have "hd (map ?f [8 + unat n..<16 + unat n]) = hd (map ?f [0..<8])"
    by simp
  then have "(of_nat (8 + unat n) :: u32) = 0"
    by (simp add: hd_map upt_rec [of "8 + unat n"] upt_rec [of 0])
  then have "unat (8 + n) = 0"
    by simp
  then have "(8 + unat n) mod 2 ^ 32 = 0"
    by (simp add: unat_word_ariths)
  with assms show False by simp
qed

lemma programmed_head:
  assumes "unat n < 65536"
  shows "take 8 (programmed (flashImage pf img n)) =
          zip (map (\<lambda>i. FLASH_IMAGE_OFFSET + of_nat i) [0..<8])
            (le32 (FLASH_MAGIC1 pf) @ le32 (FLASH_MAGIC2 pf))"
  unfolding programmed_flashImage [OF assms] take_zip take8_header_bytes
  by (simp add: take_map)

text \<open>
  Claim C2, as amended. \<open>flashImage\<close> performs one erase and then one program call, and no
  other flash operation. The call is given header and image as one block that starts at
  the header: the first eight bytes programmed are the two magic words, at the lowest eight
  offsets of the region, the image bytes follow from byte 16 on. The magic-bearing bytes
  are therefore not the last bytes programmed, for any length below 65536.
\<close>

theorem flashImage_magic_first:
  assumes "unat n < 65536"
  shows "flash_ops (flashImage pf img n) =
           [FlashRangeErase FLASH_IMAGE_OFFSET ((sizeof_tFlashHeader + n + 4095) AND 0xfffff000),
            FlashRangeProgram FLASH_IMAGE_OFFSET
              (header_bytes \<lparr>hdr_magic1 = FLASH_MAGIC1 pf, hdr_magic2 = FLASH_MAGIC2 pf,
                             hdr_length = n,
                             hdr_crc32 = crc32 (map img [0..<unat n]) 0xffffffff\<rparr>
               @ map img [0..<unat n])]
       \<and> map fst (take 8 (programmed (flashImage pf img n))) = magic_offsets
       \<and> map snd (take 8 (programmed (flashImage pf img n)))
           = le32 (FLASH_MAGIC1 pf) @ le32 (FLASH_MAGIC2 pf)
       \<and> map snd (drop 16 (programmed (flashImage pf img n))) = map img [0..<unat n]
       \<and> \<not> magic_programmed_last (flashImage pf img n)"
proof (intro conjI)
  let ?h = "\<lparr>hdr_magic1 = FLASH_MAGIC1 pf, hdr_magic2 = FLASH_MAGIC2 pf, hdr_length = n,
              hdr_crc32 = crc32 (map img [0..<unat n]) 0xffffffff\<rparr>"
  let ?f = "\<lambda>i. FLASH_IMAGE_OFFSET + (of_nat i :: u32)"
  note p = programmed_flashImage [OF assms, of pf img]
  show "flash_ops (flashImage pf img n) =
           [FlashRangeErase FLASH_IMAGE_OFFSET ((sizeof_tFlashHeader + n + 4095) AND 0xfffff000),
            FlashRangeProgram FLASH_IMAGE_OFFSET (header_bytes ?h @ map img [0..<unat n])]"
    by (simp add: flashImage_events [OF assms] flash_ops_def)
  show "map fst (take 8 (programmed (flashImage pf img n))) = magic_offsets"
    and "map snd (take 8 (programmed (flashImage pf img n)))
           = le32 (FLASH_MAGIC1 pf) @ le32 (FLASH_MAGIC2 pf)"
    by (simp_all add: programmed_head [OF assms] magic_offsets_def length_le32)
  show "map snd (drop 16 (programmed (flashImage pf img n))) = map img [0..<unat n]"
    unfolding p drop_zip by (simp add: length_header_bytes)
  show "\<not> magic_programmed_last (flashImage pf img n)"
    by (rule magic_not_last [OF assms])
qed

text \<open>The stager on an image of the single byte \<open>0xAA\<close>.\<close>

theorem flashImage_magic_first_witness:
  "unat (1 :: u32) < 65536
   \<and> flash_ops (flashImage example_platform (\<lambda>i. 0xAA) 1) =
         [FlashRangeErase 0x20000 0x1000,
          FlashRangeProgram 0x20000
            (le32 0x8ECD5EFB @ le32 0xC5AE52A9 @ le32 1 @ le32 (crc32 [0xAA] 0xffffffff) @ [0xAA])]
   \<and> map fst (take 8 (programmed (flashImage example_platform (\<lambda>i. 0xAA) 1))) = magic_offsets
   \<and> map snd (take 8 (programmed (flashImage example_platform (\<lambda>i. 0xAA) 1)))
       = [0xFB, 0x5E, 0xCD, 0x8E, 0xA9, 0x52, 0xAE, 0xC5]
   \<and> map snd (drop 16 (programmed (flashImage example_platform (\<lambda>i. 0xAA) 1))) = [0xAA]"
proof -
  have lt: "unat (1 :: u32) < 65536"
    by simp
  from flashImage_magic_first [OF lt, of example_platform "\<lambda>i. 0xAA"] lt show ?thesis
    by (simp add: example_platform_def FLASH_IMAGE_OFFSET_def sizeof_tFlashHeader_def
        header_bytes_def le32_def)
qed

text \<open>
  The ordering the claim states fails on that image: there are two flash operations, the
  erase and one program call, and the bytes are programmed at the offsets
  \<open>FLASH_IMAGE_OFFSET + 0\<close> to \<open>FLASH_IMAGE_OFFSET + 16\<close> in this order, the magic words
  first and the image byte last.
\<close>

theorem magic_programmed_last_counterexample:
  "\<not> magic_programmed_last (flashImage example_platform (\<lambda>i. 0xAA) 1)
   \<and> length (flash_ops (flashImage example_platform (\<lambda>i. 0xAA) 1)) = 2
   \<and> map fst (programmed (flashImage example_platform (\<lambda>i. 0xAA) 1))
       = map (\<lambda>i. FLASH_IMAGE_OFFSET + of_nat i) [0..<17]
   \<and> map fst (take 8 (programmed (flashImage example_platform (\<lambda>i. 0xAA) 1))) = magic_offsets
   \<and> last (programmed (flashImage example_platform (\<lambda>i. 0xAA) 1)) = (FLASH_IMAGE_OFFSET + 16, 0xAA)"
proof -
  have lt: "unat (1 :: u32) < 65536"
    by simp
  have upt: "[0..<17] = [0..<16] @ [16 :: nat]"
    by (simp add: upt_rec)
  have "programmed (flashImage example_platform (\<lambda>i. 0xAA) 1) =
     zip (map (\<lambda>i. FLASH_IMAGE_OFFSET + of_nat i) [0..<17])
       (header_bytes \<lparr>hdr_magic1 = FLASH_MAGIC1 example_platform,
                       hdr_magic2 = FLASH_MAGIC2 example_platform, hdr_length = 1,
                       hdr_crc32 = crc32 (map (\<lambda>i. 0xAA) [0..<unat (1 :: u32)]) 0xffffffff\<rparr>
         @ [0xAA])"
    using programmed_flashImage [OF lt, of example_platform "\<lambda>i. 0xAA"] by simp
  then have "map fst (programmed (flashImage example_platform (\<lambda>i. 0xAA) 1))
       = map (\<lambda>i. FLASH_IMAGE_OFFSET + of_nat i) [0..<17]"
    and "last (programmed (flashImage example_platform (\<lambda>i. 0xAA) 1)) = (FLASH_IMAGE_OFFSET + 16, 0xAA)"
    by (simp_all add: length_header_bytes upt zip_append2 del: upt_Suc)
  moreover have "length (flash_ops (flashImage example_platform (\<lambda>i. 0xAA) 1)) = 2"
    by (simp add: flashImage_events [OF lt] flash_ops_def)
  ultimately show ?thesis
    using magic_not_last [OF lt, of example_platform "\<lambda>i. 0xAA"]
      programmed_head [OF lt, of example_platform "\<lambda>i. 0xAA"]
    by (simp add: magic_offsets_def length_le32)
qed

lemma getLine_loop_line:
  "CHR 0x0A \<notin> set line \<Longrightarrow> CHR 0x0D \<notin> set line \<Longrightarrow> t = CHR 0x0A \<or> t = CHR 0x0D \<Longrightarrow>
   length buf + length line < 1024 \<Longrightarrow>
   getLine_loop (line @ t # rest) buf = Line (buf @ line) rest"
  by (induction line arbitrary: buf) auto

lemma getLine_loop_overrun:
  "CHR 0x0A \<notin> set line \<Longrightarrow> CHR 0x0D \<notin> set line \<Longrightarrow> 1024 \<le> length buf + length line \<Longrightarrow>
   getLine_loop (line @ t # rest) buf = Overrun"
  by (induction line arbitrary: buf) auto

lemma iteration_of_line:
  assumes "CHR 0x0A \<notin> set line" and "CHR 0x0D \<notin> set line" and "t = CHR 0x0A \<or> t = CHR 0x0D"
    and "length line < 1024"
  shows "readIntelHex_iteration pf stack rec0 st (line @ t # rest) =
     Stepped (fst (readIntelHex_step pf stack rec0 st line))
       (snd (readIntelHex_step pf stack rec0 st line)) rest"
  using getLine_loop_line [OF assms(1,2,3), of "[]" rest] assms(4)
  by (simp add: readIntelHex_iteration_def getLine_def split: prod.splits)

lemma iteration_of_long_line:
  assumes "CHR 0x0A \<notin> set line" and "CHR 0x0D \<notin> set line" and "1024 \<le> length line"
  shows "readIntelHex_iteration pf stack rec0 st (line @ t # rest) = LineOverrun"
  using getLine_loop_overrun [OF assms(1,2), of "[]" t rest] assms(3)
  by (simp add: readIntelHex_iteration_def getLine_def)

lemma encodes_chars:
  "encodes cs bs \<Longrightarrow> c \<in> set cs \<Longrightarrow> nibble_of c \<noteq> None"
  by (induction cs bs rule: encodes.induct) (auto split: option.splits)

lemma encodes_no_terminator:
  assumes "encodes cs bs"
  shows "CHR 0x0A \<notin> set cs" and "CHR 0x0D \<notin> set cs"
  using encodes_chars [OF assms, of "CHR 0x0A"] encodes_chars [OF assms, of "CHR 0x0D"]
  by (auto simp: nibble_of_def hex_table_def)

text \<open>
  Claim C7, as amended. Take an input line that fits the buffer \<open>line\<close>, which is a line
  of at most 1023 characters in front of its terminator, carriage return or line feed. When
  \<open>processRecord\<close> rejects it, for whatever reason, the iteration produces no event and
  leaves every variable of the loop as it was: cursor, buffer and the count of accepted
  records; the characters behind the terminator stay on the UART. In particular: take a
  line whose hex pairs decode to bytes with zero sum and so is accepted; the line with its
  last byte, the checksum byte, raised by one is rejected, and, when it fits the buffer,
  cursor and buffer are unchanged.
\<close>

theorem rejected_line_keeps_state:
  "(CHR 0x0A \<notin> set line \<and> CHR 0x0D \<notin> set line \<and> (t = CHR 0x0A \<or> t = CHR 0x0D)
        \<and> length line < 1024 \<and> \<not> fst (processRecord stack line rec0) \<longrightarrow>
      readIntelHex_iteration pf stack rec0 st (line @ t # rest) = Stepped [] (Continue st) rest)
   \<and> (CHR '':'' \<notin> set pre \<and> CHR 0x00 \<notin> set pre \<and> CHR 0x0A \<notin> set pre \<and> CHR 0x0D \<notin> set pre
        \<and> (t = CHR 0x0A \<or> t = CHR 0x0D) \<and> length (pre @ CHR '':'' # cs') < 1024
        \<and> length fbytes \<le> 260
        \<and> encodes cs (fbytes @ [ck]) \<and> sum_list (fbytes @ [ck]) = 0
        \<and> encodes cs' (fbytes @ [ck + 1]) \<longrightarrow>
      fst (processRecord stack (pre @ CHR '':'' # cs) rec0)
      \<and> \<not> fst (processRecord stack (pre @ CHR '':'' # cs') rec0)
      \<and> readIntelHex_iteration pf stack rec0 st ((pre @ CHR '':'' # cs') @ t # rest)
          = Stepped [] (Continue st) rest)"
proof (intro conjI impI)
  assume "CHR 0x0A \<notin> set line \<and> CHR 0x0D \<notin> set line \<and> (t = CHR 0x0A \<or> t = CHR 0x0D)
        \<and> length line < 1024 \<and> \<not> fst (processRecord stack line rec0)"
  then have l: "CHR 0x0A \<notin> set line" "CHR 0x0D \<notin> set line" "t = CHR 0x0A \<or> t = CHR 0x0D"
      "length line < 1024"
    and rej: "\<not> fst (processRecord stack line rec0)"
    by blast+
  show "readIntelHex_iteration pf stack rec0 st (line @ t # rest) = Stepped [] (Continue st) rest"
    by (simp only: iteration_of_line [OF l] step_rejected [OF rej] fst_conv snd_conv)
next
  assume a: "CHR '':'' \<notin> set pre \<and> CHR 0x00 \<notin> set pre \<and> CHR 0x0A \<notin> set pre \<and> CHR 0x0D \<notin> set pre
        \<and> (t = CHR 0x0A \<or> t = CHR 0x0D) \<and> length (pre @ CHR '':'' # cs') < 1024
        \<and> length fbytes \<le> 260
        \<and> encodes cs (fbytes @ [ck]) \<and> sum_list (fbytes @ [ck]) = 0
        \<and> encodes cs' (fbytes @ [ck + 1])"
  then have pre: "CHR '':'' \<notin> set pre" "CHR 0x00 \<notin> set pre"
    and pre': "CHR 0x0A \<notin> set pre" "CHR 0x0D \<notin> set pre"
    and t: "t = CHR 0x0A \<or> t = CHR 0x0D"
    and fits: "length (pre @ CHR '':'' # cs') < 1024"
    and enc: "encodes cs (fbytes @ [ck])" and enc': "encodes cs' (fbytes @ [ck + 1])"
    and sum: "sum_list (fbytes @ [ck]) = 0"
    by blast+
  from a have len: "length (fbytes @ [ck]) \<le> 261" "length (fbytes @ [ck + 1]) \<le> 261"
    by simp_all
  have stop: "\<not> fst (parseHex [])"
    by (simp add: parseHex_def peek_def hex2nibble_def)
  have "sum_list (fbytes @ [ck + 1]) = sum_list (fbytes @ [ck]) + 1"
    by (simp add: add.assoc)
  then have sum': "sum_list (fbytes @ [ck + 1]) \<noteq> 0"
    by (simp only: sum) simp
  show good: "fst (processRecord stack (pre @ CHR '':'' # cs) rec0)"
    using processRecord_shape [OF pre enc len(1) stop, of stack rec0] sum by simp
  show bad: "\<not> fst (processRecord stack (pre @ CHR '':'' # cs') rec0)"
    using processRecord_shape [OF pre enc' len(2) stop, of stack rec0] sum' by simp
  have l: "CHR 0x0A \<notin> set (pre @ CHR '':'' # cs')" "CHR 0x0D \<notin> set (pre @ CHR '':'' # cs')"
    using pre' encodes_no_terminator [OF enc'] by simp_all
  show "readIntelHex_iteration pf stack rec0 st ((pre @ CHR '':'' # cs') @ t # rest)
          = Stepped [] (Continue st) rest"
    by (simp only: iteration_of_line [OF l t fits] step_rejected [OF bad] fst_conv snd_conv)
qed

text \<open>
  The line \<open>hello\<close>, which holds no record, and the scenario line with its checksum byte
  \<open>1E\<close> raised to \<open>1F\<close>, each ended by a carriage return and followed by the next line.
\<close>

theorem rejected_line_keeps_state_witness:
  "CHR 0x0A \<notin> set ''hello'' \<and> CHR 0x0D \<notin> set ''hello'' \<and> length ''hello'' < 1024
   \<and> \<not> fst (processRecord blank_stack ''hello'' blank_record)
   \<and> readIntelHex_iteration example_platform blank_stack blank_record blank_loader
        (''hello'' @ CHR 0x0D # '':00000001FF'') = Stepped [] (Continue blank_loader) '':00000001FF''
   \<and> CHR '':'' \<notin> set ''junk '' \<and> CHR 0x00 \<notin> set ''junk ''
   \<and> CHR 0x0A \<notin> set ''junk '' \<and> CHR 0x0D \<notin> set ''junk ''
   \<and> length (''junk '' @ CHR '':'' # ''0300300002337A1F'') < 1024
   \<and> length [0x03, 0x00, 0x30, 0x00, 0x02, 0x33, 0x7A :: u8] \<le> 260
   \<and> encodes ''0300300002337A1E'' ([0x03, 0x00, 0x30, 0x00, 0x02, 0x33, 0x7A] @ [0x1E])
   \<and> sum_list ([0x03, 0x00, 0x30, 0x00, 0x02, 0x33, 0x7A] @ [0x1E :: u8]) = 0
   \<and> encodes ''0300300002337A1F'' ([0x03, 0x00, 0x30, 0x00, 0x02, 0x33, 0x7A] @ [0x1E + 1])
   \<and> fst (processRecord blank_stack (''junk '' @ CHR '':'' # ''0300300002337A1E'') blank_record)
   \<and> \<not> fst (processRecord blank_stack (''junk '' @ CHR '':'' # ''0300300002337A1F'') blank_record)
   \<and> readIntelHex_iteration example_platform blank_stack blank_record blank_loader
         ((''junk '' @ CHR '':'' # ''0300300002337A1F'') @ CHR 0x0D # '':00000001FF'')
       = Stepped [] (Continue blank_loader) '':00000001FF''"
proof -
  have l: "CHR 0x0A \<notin> set ''hello'' \<and> CHR 0x0D \<notin> set ''hello'' \<and> length ''hello'' < 1024"
    by simp
  have rej: "\<not> fst (processRecord blank_stack ''hello'' blank_record)"
    by (simp add: parser_defs)
  have hyp: "CHR '':'' \<notin> set ''junk '' \<and> CHR 0x00 \<notin> set ''junk ''
      \<and> CHR 0x0A \<notin> set ''junk '' \<and> CHR 0x0D \<notin> set ''junk ''
      \<and> length (''junk '' @ CHR '':'' # ''0300300002337A1F'') < 1024
      \<and> length [0x03, 0x00, 0x30, 0x00, 0x02, 0x33, 0x7A :: u8] \<le> 260
      \<and> encodes ''0300300002337A1E'' ([0x03, 0x00, 0x30, 0x00, 0x02, 0x33, 0x7A] @ [0x1E])
      \<and> sum_list ([0x03, 0x00, 0x30, 0x00, 0x02, 0x33, 0x7A] @ [0x1E :: u8]) = 0
      \<and> encodes ''0300300002337A1F'' ([0x03, 0x00, 0x30, 0x00, 0x02, 0x33, 0x7A] @ [0x1E + 1])"
    by (simp add: nibble_of_def hex_table_def)
  note inst = rejected_line_keeps_state [where stack = blank_stack and ?rec0.0 = blank_record
      and pf = example_platform and st = blank_loader and line = "''hello''" and t = "CHR 0x0D"
      and rest = "'':00000001FF''"
      and pre = "''junk ''" and fbytes = "[0x03, 0x00, 0x30, 0x00, 0x02, 0x33, 0x7A]"
      and ck = "0x1E" and cs = "''0300300002337A1E''" and cs' = "''0300300002337A1F''"]
  from inst l rej hyp show ?thesis
    by blast
qed

text \<open>
  The claim as first stated, for every input line, fails on a line that does not fit: 1024
  times the character \<open>x\<close> and a line feed. The line holds no marker, so \<open>processRecord\<close>
  rejects it; but \<open>getLine\<close> stores its terminating NUL at index 1024, behind the
  array \<open>line\<close>, so the iteration does not end in the unchanged state.
\<close>

theorem long_line_overruns_line_buffer:
  "\<not> fst (processRecord blank_stack (replicate 1024 CHR ''x'') blank_record)
   \<and> length (replicate 1024 CHR ''x'') = 1024
   \<and> readIntelHex_iteration example_platform blank_stack blank_record blank_loader
        (replicate 1024 CHR ''x'' @ [CHR 0x0A]) = LineOverrun
   \<and> readIntelHex_iteration example_platform blank_stack blank_record blank_loader
        (replicate 1024 CHR ''x'' @ [CHR 0x0A]) \<noteq> Stepped [] (Continue blank_loader) []"
proof -
  have l: "CHR 0x0A \<notin> set (replicate 1024 CHR ''x'')" "CHR 0x0D \<notin> set (replicate 1024 CHR ''x'')"
    and m: "CHR '':'' \<notin> set (replicate 1024 CHR ''x'')"
    by simp_all
  have len: "1024 \<le> length (replicate 1024 CHR ''x'')"
    by simp
  from processRecord_no_marker [OF m, of blank_stack blank_record]
    iteration_of_long_line [OF l len, of example_platform blank_stack blank_record blank_loader "CHR 0x0A" "[]"]
  show ?thesis
    by simp
qed

section \<open>Further properties of the pipeline\<close>

lemma step_cursor_bounded:
  assumes "snd (readIntelHex_step pf stack rec0 st line) = Continue st'"
    and "unat (offset st) < 65536"
  shows "unat (offset st') < 65536"
proof (cases "fst (processRecord stack line rec0)")
  case False
  with assms show ?thesis
    by (simp add: step_rejected)
next
  case True
  have "unat (offset st') = (unat (offset st) + unat (count (snd (processRecord stack line rec0)))) mod 65536
        \<or> offset st' = 0 \<or> offset st' = offset st"
    using assms(1) unat_offset_wrap [of "offset st" "count (snd (processRecord stack line rec0))"]
    by (auto simp: step_accepted [OF accepted_pair [OF True]] split: if_splits)
  with assms(2) show ?thesis
    by auto
qed

text \<open>
  Extra X1. The cursor never leaves the range of the staging buffer: started below 65536
  (it starts at 0), it is below 65536 after any number of lines, as long as the loop has
  not gone into \<open>flashImage\<close>. This is the bound the END-OF-FILE theorem assumes.
\<close>

theorem cursor_stays_below_capacity:
  assumes "snd (readIntelHex pf g k st lines) = Continue st'"
    and "unat (offset st) < 65536"
  shows "unat (offset st') < 65536"
  using assms
proof (induction lines arbitrary: k st)
  case Nil
  then show ?case by simp
next
  case (Cons l ls)
  from Cons.prems(1) obtain st1 where
    step: "snd (readIntelHex_step pf (fst (g k)) (snd (g k)) st l) = Continue st1"
    and rest: "snd (readIntelHex pf g (Suc k) st1 ls) = Continue st'"
    by (auto simp: snd_readIntelHex_Cons split: outcome.splits simp del: readIntelHex.simps)
  from step_cursor_bounded [OF step Cons.prems(2)] have "unat (offset st1) < 65536" .
  from Cons.IH [OF rest this] show ?case .
qed

lemma readIntelHex_Cons_Continue:
  "readIntelHex_step pf (fst (g k)) (snd (g k)) st l = (out, Continue st1) \<Longrightarrow>
   readIntelHex pf g k st (l # ls) =
     (out @ fst (readIntelHex pf g (Suc k) st1 ls), snd (readIntelHex pf g (Suc k) st1 ls))"
  by (simp split: prod.splits)

lemma readIntelHex_Cons_Rebooting:
  "readIntelHex_step pf (fst (g k)) (snd (g k)) st l = (out, Rebooting) \<Longrightarrow>
   readIntelHex pf g k st (l # ls) = (out, Rebooting)"
  by simp

lemma step_encoded_eof:
  "readIntelHex_step pf stack rec0 st (encode_record 0 a TYPE_EOF []) =
     (flashImage pf (flashbuf st) (offset st), Rebooting)"
proof -
  have len: "length ([] :: u8 list) = unat (0 :: u8)"
    by simp
  show ?thesis
    by (simp add: step_accepted [OF processRecord_encode_record [OF len]] TYPE_EOF_def TYPE_DATA_def)
qed

lemma scenario_lines:
  "encode_record 4 0 TYPE_DATA [0xDE, 0xAD, 0xBE, 0xEF] = '':04000000DEADBEEFC4''"
  "encode_record 4 4 TYPE_DATA [0x01, 0x02, 0x03, 0x04] = '':0400040001020304EE''"
  "encode_record 0 0 TYPE_EOF [] = '':00000001FF''"
  by (simp_all add: encode_record_def record_bytes_def record_fields_def encode_bytes_def
      hex_pair_def hex_digit_def TYPE_DATA_def TYPE_EOF_def mask_eq_exp_minus_1)

text \<open>One DATA line from the initial state.\<close>

theorem cursor_stays_below_capacity_witness:
  "unat (offset blank_loader) < 65536
   \<and> (\<exists>st'. snd (readIntelHex example_platform (\<lambda>k. (blank_stack, blank_record)) 0 blank_loader
                    ['':04000000DEADBEEFC4'']) = Continue st'
           \<and> unat (offset st') < 65536)"
proof -
  let ?g = "\<lambda>k :: nat. (blank_stack, blank_record)"
  have len: "length [0xDE, 0xAD, 0xBE, 0xEF :: u8] = unat (4 :: u8)"
    by simp
  have lt: "unat (offset blank_loader) < 65536"
    by (simp add: blank_loader_def)
  have "\<exists>st'. snd (readIntelHex example_platform ?g 0 blank_loader ['':04000000DEADBEEFC4''])
          = Continue st'"
    using step_data_line [OF len, of example_platform blank_stack blank_record blank_loader 0]
    by (simp add: scenario_lines snd_readIntelHex_Cons del: readIntelHex.simps(2))
  then obtain st' where
    run: "snd (readIntelHex example_platform ?g 0 blank_loader ['':04000000DEADBEEFC4'']) = Continue st'"
    by blast
  from cursor_stays_below_capacity [OF run lt] run lt show ?thesis
    by blast
qed

text \<open>
  Extra X2. Two DATA records of four bytes each and an END-OF-FILE record, from the initial
  state and whatever the uninitialised locals hold: the loop ends in \<open>flashImage\<close>, which
  erases one 4096-byte block and programs the header with length 8 and the CRC of the eight
  bytes, followed by the two payloads one after the other.
\<close>

theorem two_data_records_then_eof:
  "snd (readIntelHex pf g 0 blank_loader
          ['':04000000DEADBEEFC4'', '':0400040001020304EE'', '':00000001FF'']) = Rebooting
   \<and> flash_ops (fst (readIntelHex pf g 0 blank_loader
          ['':04000000DEADBEEFC4'', '':0400040001020304EE'', '':00000001FF''])) =
       [FlashRangeErase 0x20000 0x1000,
        FlashRangeProgram 0x20000
          (le32 (FLASH_MAGIC1 pf) @ le32 (FLASH_MAGIC2 pf) @ le32 8
           @ le32 (crc32 [0xDE, 0xAD, 0xBE, 0xEF, 0x01, 0x02, 0x03, 0x04] 0xFFFFFFFF)
           @ [0xDE, 0xAD, 0xBE, 0xEF, 0x01, 0x02, 0x03, 0x04])]"
proof -
  let ?st1 = "blank_loader\<lparr>offset := (offset blank_loader + ucast (4 :: u8)) mod 65536,
      flashbuf := (\<lambda>i. if unat (offset blank_loader) \<le> i \<and> i < unat (offset blank_loader) + unat (4 :: u8)
                       then [0xDE, 0xAD, 0xBE, 0xEF] ! (i - unat (offset blank_loader))
                       else flashbuf blank_loader i),
      accepted := accepted blank_loader + 1\<rparr>"
  let ?st2 = "?st1\<lparr>offset := (offset ?st1 + ucast (4 :: u8)) mod 65536,
      flashbuf := (\<lambda>i. if unat (offset ?st1) \<le> i \<and> i < unat (offset ?st1) + unat (4 :: u8)
                       then [0x01, 0x02, 0x03, 0x04] ! (i - unat (offset ?st1))
                       else flashbuf ?st1 i),
      accepted := accepted ?st1 + 1\<rparr>"
  have len: "length [0xDE, 0xAD, 0xBE, 0xEF :: u8] = unat (4 :: u8)"
    "length [0x01, 0x02, 0x03, 0x04 :: u8] = unat (4 :: u8)"
    by simp_all
  have s1: "readIntelHex_step pf (fst (g 0)) (snd (g 0)) blank_loader '':04000000DEADBEEFC4''
              = ([], Continue ?st1)"
    using step_encoded_data [OF len(1), of pf "fst (g 0)" "snd (g 0)" blank_loader 0]
    by (simp add: scenario_lines blank_loader_def)
  have s2: "readIntelHex_step pf (fst (g 1)) (snd (g 1)) ?st1 '':0400040001020304EE''
              = ([], Continue ?st2)"
    using step_encoded_data [OF len(2), of pf "fst (g 1)" "snd (g 1)" ?st1 4]
    by (simp add: scenario_lines blank_loader_def)
  have s3: "readIntelHex_step pf (fst (g 2)) (snd (g 2)) ?st2 '':00000001FF''
              = (flashImage pf (flashbuf ?st2) (offset ?st2), Rebooting)"
    using step_encoded_eof [of pf "fst (g 2)" "snd (g 2)" ?st2 0]
    by (simp only: scenario_lines)
  have run: "readIntelHex pf g 0 blank_loader
          ['':04000000DEADBEEFC4'', '':0400040001020304EE'', '':00000001FF'']
        = (flashImage pf (flashbuf ?st2) (offset ?st2), Rebooting)"
    by (simp only: readIntelHex_Cons_Continue [where g = g and k = 0, OF s1]
        readIntelHex_Cons_Continue [where g = g and k = "Suc 0", OF s2 [unfolded One_nat_def]]
        readIntelHex_Cons_Rebooting [where g = g and k = "Suc (Suc 0)", OF s3 [unfolded numeral_2_eq_2]]
        fst_conv snd_conv append_Nil)
  have off: "offset ?st2 = 8"
    by (simp add: blank_loader_def)
  have img: "map (flashbuf ?st2) [0..<8] = [0xDE, 0xAD, 0xBE, 0xEF, 0x01, 0x02, 0x03, 0x04]"
    by (simp add: blank_loader_def upt_rec)
  have lt: "unat (8 :: u32) < 65536"
    by simp
  show ?thesis
    unfolding run off
    using img
    by (simp add: flashImage_events [OF lt] flash_ops_def header_bytes_def FLASH_IMAGE_OFFSET_def
        sizeof_tFlashHeader_def)
qed

end
